theory Spec2Isabelle
  imports
    Complex_Main
    "HOL-Library.AList"
    "HOL-Library.Char_ord"
    "HOL-Library.List_Lexorder"
begin

section \<open>Python strings\<close>

text \<open>
  A Python \<open>str\<close> is a sequence of code points. The model uses \<^typ>\<open>string\<close>, so a
  character is a code point below 256 (ASCII and Latin-1), and the three Unicode tables the
  program consults (\<open>str.isupper\<close>, \<open>str.lower\<close>, the white space of \<open>str.strip\<close>) are
  written out for that range. In that range \<open>str.lower\<close> maps character by character:
  the upper-case letters are \<open>A\<close>..\<open>Z\<close> and \<open>0xC0\<close>..\<open>0xDE\<close> without \<open>0xD7\<close>, and each
  has its lower-case partner 32 code points further.
\<close>

datatype py_error = ZeroDivisionError

definition py_isupper :: "char \<Rightarrow> bool" where
  "py_isupper c =
     (let n = (of_char c :: nat)
      in if 65 \<le> n \<and> n \<le> 90 then True
         else if n = 215 then False
         else 192 \<le> n \<and> n \<le> 222)"

definition py_lower_char :: "char \<Rightarrow> char" where
  "py_lower_char c = (if py_isupper c then char_of (of_char c + (32 :: nat)) else c)"

definition py_lower :: "string \<Rightarrow> string" where
  "py_lower s = map py_lower_char s"

definition py_isspace :: "char \<Rightarrow> bool" where
  "py_isspace c =
     (let n = (of_char c :: nat)
      in if 9 \<le> n \<and> n \<le> 13 then True
         else if 28 \<le> n \<and> n \<le> 32 then True
         else n = 133 \<or> n = 160)"

definition py_strip :: "string \<Rightarrow> string" where
  "py_strip s = rev (dropWhile py_isspace (rev (dropWhile py_isspace s)))"

definition py_replace :: "char \<Rightarrow> char \<Rightarrow> string \<Rightarrow> string" where
  "py_replace old new s = map (\<lambda>c. if c = old then new else c) s"

text \<open>
  \<open>s.split(sep)\<close> for a non-empty separator: scan from the left, cut at every
  occurrence of \<open>sep\<close>, occurrences do not overlap. The result always has at least one
  element: \<open>"".split(";")\<close> is \<open>[""]\<close>.
\<close>

function py_split_from :: "string \<Rightarrow> string \<Rightarrow> string \<Rightarrow> string list" where
  "py_split_from sep cur [] = [cur]"
| "py_split_from sep cur (c # cs) =
     (if sep \<noteq> [] \<and> take (length sep) (c # cs) = sep
      then cur # py_split_from sep [] (drop (length sep) (c # cs))
      else py_split_from sep (cur @ [c]) cs)"
  by pat_completeness auto
termination
  by (relation "measure (\<lambda>(sep, cur, s). length s)") auto

definition py_split :: "string \<Rightarrow> string \<Rightarrow> string list" where
  "py_split sep s = py_split_from sep [] s"

fun py_join :: "string \<Rightarrow> string list \<Rightarrow> string" where
  "py_join sep [] = []"
| "py_join sep [x] = x"
| "py_join sep (x # y # ys) = x @ sep @ py_join sep (y # ys)"

text \<open>
  \<open>list(collections.OrderedDict.fromkeys(xs))\<close>: the elements of \<open>xs\<close> in the order of
  their first occurrence.
\<close>

fun fromkeys_into :: "'a list \<Rightarrow> 'a list \<Rightarrow> 'a list" where
  "fromkeys_into seen [] = seen"
| "fromkeys_into seen (x # xs) =
     fromkeys_into (if x \<in> set seen then seen else seen @ [x]) xs"

definition fromkeys :: "'a list \<Rightarrow> 'a list" where
  "fromkeys xs = fromkeys_into [] xs"

section \<open>Rule table and synonym index\<close>

record AllowedTagRecord =
  allowed_name :: string
  synonyms :: "string option"
  immutable :: bool
  separated :: bool

text \<open>
  A Python \<open>dict\<close> keeps its keys in insertion order, and storing under a key that is
  already there keeps the key's place: an association list with \<^const>\<open>AList.update\<close>.
\<close>

type_synonym tag_dict = "(string \<times> string) list"

definition normalize_tag :: "string \<Rightarrow> string" where
  "normalize_tag tag = py_lower (py_replace CHR ''-'' CHR ''_'' (py_replace CHR '' '' CHR ''_'' tag))"

definition build_allowed_tags :: "AllowedTagRecord list \<Rightarrow> tag_dict" where
  "build_allowed_tags rules =
     fold (\<lambda>record'. AList.update (normalize_tag (allowed_name record')) (allowed_name record'))
       rules []"

definition add_synonyms :: "AllowedTagRecord \<Rightarrow> tag_dict \<Rightarrow> tag_dict" where
  "add_synonyms record' d =
     (case synonyms record' of
        None \<Rightarrow> d
      | Some syns \<Rightarrow>
          if syns = [] then d
          else fold (\<lambda>synonym. AList.update (normalize_tag synonym) (allowed_name record'))
                 (py_split '', '' syns) d)"

definition build_allowed_tags_with_synonyms :: "AllowedTagRecord list \<Rightarrow> tag_dict" where
  "build_allowed_tags_with_synonyms rules = fold add_synonyms rules (build_allowed_tags rules)"

section \<open>First implementation: the character-overlap scorer\<close>

text \<open>
  \<open>is_tokens_fuzzy_equal\<close> with \<open>subtoken_length = 1\<close>. The inner loop looks for the first
  position of the second token that is not yet used and holds the same character, marks
  it and stops. The score is a Python float, the correctly rounded quotient of two
  integers; the model keeps the exact quotient as a rational. The comparisons the
  program makes (with \<open>0.6\<close> and between two scores) have the same outcome on the exact
  quotients for all tokens shorter than \<open>2^25\<close> characters, since two different
  quotients with denominators below \<open>2^26\<close> differ by more than one unit in the last
  place of a float between 0 and 1. The \<open>print\<close> calls of the program are left out.
\<close>

fun mark_first_unused :: "char \<Rightarrow> string \<Rightarrow> bool list \<Rightarrow> bool list option" where
  "mark_first_unused c (d # ds) (u # us) =
     (if \<not> u \<and> c = d then Some (True # us)
      else map_option ((#) u) (mark_first_unused c ds us))"
| "mark_first_unused c _ _ = None"

fun count_equal_subtokens :: "string \<Rightarrow> string \<Rightarrow> bool list \<Rightarrow> nat \<Rightarrow> nat" where
  "count_equal_subtokens [] second_token used_tokens n = n"
| "count_equal_subtokens (c # cs) second_token used_tokens n =
     (case mark_first_unused c second_token used_tokens of
        None \<Rightarrow> count_equal_subtokens cs second_token used_tokens n
      | Some used' \<Rightarrow> count_equal_subtokens cs second_token used' (Suc n))"

definition equal_subtokens_count :: "string \<Rightarrow> string \<Rightarrow> nat" where
  "equal_subtokens_count first_token second_token =
     count_equal_subtokens first_token second_token (replicate (length second_token) False) 0"

definition is_tokens_fuzzy_equal :: "string \<Rightarrow> string \<Rightarrow> py_error + rat" where
  "is_tokens_fuzzy_equal first_token second_token =
     (let cnt = equal_subtokens_count first_token second_token;
          denom = int (length first_token) + int (length second_token) - int cnt
      in if denom = 0 then Inl ZeroDivisionError
         else Inr (of_nat cnt / of_int denom))"

fun best_match_loop ::
  "string \<Rightarrow> string list \<Rightarrow> string option \<times> rat \<Rightarrow> py_error + (string option \<times> rat)" where
  "best_match_loop normalized_tag [] best = Inr best"
| "best_match_loop normalized_tag (allowed_tag # rest) (best_match, best_score) =
     (case is_tokens_fuzzy_equal normalized_tag allowed_tag of
        Inl e \<Rightarrow> Inl e
      | Inr score \<Rightarrow>
          best_match_loop normalized_tag rest
            (if score > best_score then (Some allowed_tag, score) else (best_match, best_score)))"

text \<open>
  The last line of \<open>find_best_match\<close> tests \<open>best_match\<close> for truth: \<open>None\<close> and the
  empty key are both false.
\<close>

definition get_if_truthy :: "tag_dict \<Rightarrow> string option \<Rightarrow> string option" where
  "get_if_truthy d best_match =
     (case best_match of
        None \<Rightarrow> None
      | Some k \<Rightarrow> if k = [] then None else map_of d k)"

definition find_best_match1 :: "string \<Rightarrow> tag_dict \<Rightarrow> py_error + string option" where
  "find_best_match1 tag allowed_tags_with_synonyms =
     (case best_match_loop (normalize_tag tag) (map fst allowed_tags_with_synonyms) (None, 3 / 5) of
        Inl e \<Rightarrow> Inl e
      | Inr (best_match, best_score) \<Rightarrow> Inr (get_if_truthy allowed_tags_with_synonyms best_match))"

section \<open>Composite splitter\<close>

fun split_parts :: "string list \<Rightarrow> string \<Rightarrow> string \<Rightarrow> string list" where
  "split_parts parts current_part [] =
     (if current_part \<noteq> [] then parts @ [current_part] else parts)"
| "split_parts parts current_part (char # rest) =
     (if py_isupper char \<and> current_part \<noteq> []
      then split_parts (parts @ [current_part]) [char] rest
      else split_parts parts (current_part @ [char]) rest)"

definition split_composite_tag :: "string \<Rightarrow> tag_dict \<Rightarrow> string list" where
  "split_composite_tag tag allowed_tags =
     List.map_filter (\<lambda>part. map_of allowed_tags (normalize_tag part)) (split_parts [] [] tag)"

section \<open>Invalid-tag cache\<close>

text \<open>
  The cache file holds a JSON object from raw tokens to ISO-8601 timestamps, as
  \<open>datetime.now().isoformat()\<close> writes them. The model keeps the loaded dictionary as
  an association list in file order and a timestamp as the instant it denotes, counted
  in microseconds (the resolution of \<open>datetime\<close>), so that \<open>fromisoformat\<close> of a stored
  value is the value itself and a \<open>timedelta\<close> is a difference of two instants.
  \<open>load_cache\<close> and \<open>save_cache\<close> read and write the whole dictionary: the loaded
  dictionary is an argument of \<open>apply_tag_rules\<close> and the saved one a component of its
  result.
\<close>

type_synonym cache = "(string \<times> int) list"

definition CACHE_EXPIRATION_DAYS :: int where
  "CACHE_EXPIRATION_DAYS = 14"

definition timedelta_days :: "int \<Rightarrow> int" where
  "timedelta_days d = d * 86400 * 1000000"

definition clean_tag :: "int \<Rightarrow> string \<Rightarrow> cache \<Rightarrow> cache" where
  "clean_tag current_time tag invalid_tags =
     (case map_of invalid_tags tag of
        None \<Rightarrow> invalid_tags
      | Some stamp \<Rightarrow>
          if current_time - stamp > timedelta_days CACHE_EXPIRATION_DAYS
          then AList.delete tag invalid_tags
          else invalid_tags)"

definition clean_cache :: "int \<Rightarrow> cache \<Rightarrow> cache" where
  "clean_cache current_time invalid_tags =
     fold (clean_tag current_time) (map fst invalid_tags) invalid_tags"

section \<open>Rule resolver\<close>

text \<open>
  \<open>apply_tag_rules\<close> is the same text in both implementations up to the
  \<open>find_best_match\<close> it calls, so the model takes that function as an argument. The
  clock is a function from the number of the call of \<open>datetime.now()\<close> within this run
  (starting at 0, the call made by \<open>clean_cache\<close>) to the instant it returns; the loop
  state counts the calls made so far.
\<close>

type_synonym matcher = "string \<Rightarrow> tag_dict \<Rightarrow> py_error + string option"

record loop_state =
  result_tags :: "string list"
  invalid_tags_cache :: cache
  now_calls :: nat

definition truthy :: "string option \<Rightarrow> bool" where
  "truthy v = (case v of None \<Rightarrow> False | Some s \<Rightarrow> s \<noteq> [])"

definition process_tag ::
  "matcher \<Rightarrow> (nat \<Rightarrow> int) \<Rightarrow> tag_dict \<Rightarrow> bool \<Rightarrow> string \<Rightarrow> loop_state \<Rightarrow> py_error + loop_state" where
  "process_tag find_best_match clock allowed_tags_with_synonyms delayed_clean raw st =
     (let tag = py_strip raw;
          normalized_tag = normalize_tag tag
      in case map_of allowed_tags_with_synonyms normalized_tag of
           Some name \<Rightarrow> Inr (st\<lparr>result_tags := result_tags st @ [name]\<rparr>)
         | None \<Rightarrow>
             (let split_tags = split_composite_tag tag allowed_tags_with_synonyms
              in if split_tags \<noteq> [] then Inr (st\<lparr>result_tags := result_tags st @ split_tags\<rparr>)
                 else case find_best_match tag allowed_tags_with_synonyms of
                        Inl e \<Rightarrow> Inl e
                      | Inr best_match \<Rightarrow>
                          if truthy best_match
                          then Inr (st\<lparr>result_tags := result_tags st @ [the best_match]\<rparr>)
                          else if delayed_clean
                          then Inr (st\<lparr>invalid_tags_cache :=
                                        AList.update tag (clock (now_calls st)) (invalid_tags_cache st),
                                      now_calls := Suc (now_calls st)\<rparr>)
                          else Inr st))"

fun process_tags ::
  "matcher \<Rightarrow> (nat \<Rightarrow> int) \<Rightarrow> tag_dict \<Rightarrow> bool \<Rightarrow> string list \<Rightarrow> loop_state \<Rightarrow> py_error + loop_state" where
  "process_tags find_best_match clock aws delayed_clean [] st = Inr st"
| "process_tags find_best_match clock aws delayed_clean (raw # rest) st =
     (case process_tag find_best_match clock aws delayed_clean raw st of
        Inl e \<Rightarrow> Inl e
      | Inr st' \<Rightarrow> process_tags find_best_match clock aws delayed_clean rest st')"

text \<open>
  The reconciliation loop: every key of the cache that occurs in \<open>result_tags\<close> is
  deleted.
\<close>

definition reconcile_tag :: "string list \<Rightarrow> string \<Rightarrow> cache \<Rightarrow> cache" where
  "reconcile_tag tags invalid_tag invalid_tags =
     (if invalid_tag \<notin> set tags then invalid_tags
      else AList.delete invalid_tag invalid_tags)"

definition reconcile :: "string list \<Rightarrow> cache \<Rightarrow> cache" where
  "reconcile tags invalid_tags =
     fold (reconcile_tag tags) (map fst invalid_tags) invalid_tags"

definition run_loop ::
  "matcher \<Rightarrow> (nat \<Rightarrow> int) \<Rightarrow> cache \<Rightarrow> string \<Rightarrow> AllowedTagRecord list \<Rightarrow> bool \<Rightarrow> py_error + loop_state" where
  "run_loop find_best_match clock loaded tags rules delayed_clean =
     process_tags find_best_match clock (build_allowed_tags_with_synonyms rules) delayed_clean
       (py_split '';'' tags)
       \<lparr>result_tags = [], invalid_tags_cache = clean_cache (clock 0) loaded, now_calls = 1\<rparr>"

definition finish :: "bool \<Rightarrow> loop_state \<Rightarrow> string \<times> cache" where
  "finish delayed_clean st =
     (py_join ''; '' (fromkeys (result_tags st)),
      if delayed_clean then reconcile (result_tags st) (invalid_tags_cache st)
      else invalid_tags_cache st)"

text \<open>
  The result is the returned string together with the dictionary handed to
  \<open>save_cache\<close>; an exception leaves the function before \<open>save_cache\<close>.
\<close>

definition apply_tag_rules_with ::
  "matcher \<Rightarrow> (nat \<Rightarrow> int) \<Rightarrow> cache \<Rightarrow> string \<Rightarrow> AllowedTagRecord list \<Rightarrow> bool
     \<Rightarrow> py_error + (string \<times> cache)" where
  "apply_tag_rules_with find_best_match clock loaded tags rules delayed_clean =
     (case run_loop find_best_match clock loaded tags rules delayed_clean of
        Inl e \<Rightarrow> Inl e
      | Inr st \<Rightarrow> Inr (finish delayed_clean st))"

definition apply_tag_rules1 ::
  "(nat \<Rightarrow> int) \<Rightarrow> cache \<Rightarrow> string \<Rightarrow> AllowedTagRecord list \<Rightarrow> bool \<Rightarrow> py_error + (string \<times> cache)" where
  "apply_tag_rules1 = apply_tag_rules_with find_best_match1"

section \<open>Second implementation: the sequence matcher\<close>

text \<open>
  The second \<open>find_best_match\<close> calls \<open>difflib.get_close_matches\<close> of the Python
  standard library (CPython 3.11, \<open>Lib/difflib.py\<close> and \<open>Lib/heapq.py\<close>), which builds
  \<open>SequenceMatcher()\<close> with \<open>isjunk = None\<close> and \<open>autojunk = True\<close>, the candidate as
  sequence \<open>a\<close> and the word as sequence \<open>b\<close>. The definitions below follow that text.
  With \<open>isjunk = None\<close> the set \<open>bjunk\<close> is empty, so the two loops of
  \<open>find_longest_match\<close> that extend a match over junk never run and the other two have
  no junk test. \<open>b2j\<close> maps an element of \<open>b\<close> to the increasing list of its positions;
  when \<open>b\<close> has at least 200 elements, the elements occurring more than
  \<open>len(b) // 100 + 1\<close> times are popular and have no entry.
\<close>

definition indices_of :: "char \<Rightarrow> string \<Rightarrow> nat list" where
  "indices_of elt b = filter (\<lambda>j. b ! j = elt) [0..<length b]"

definition is_popular :: "string \<Rightarrow> char \<Rightarrow> bool" where
  "is_popular b elt =
     (if length b \<ge> 200 then length (indices_of elt b) > length b div 100 + 1 else False)"

definition b2j_get :: "string \<Rightarrow> char \<Rightarrow> nat list" where
  "b2j_get b elt = (if is_popular b elt then [] else indices_of elt b)"

type_synonym match = "nat \<times> nat \<times> nat"

text \<open>
  The inner loop of \<open>find_longest_match\<close> for one \<open>i\<close>. Indices are natural numbers:
  \<open>j2len.get(j-1, 0)\<close> at \<open>j = 0\<close> asks for the key \<open>-1\<close>, which is never stored, and
  \<open>i-k+1\<close> is written \<open>Suc i - k\<close> (lemma \<open>find_longest_match_bounds\<close> shows that the
  subtraction is never cut off when a match is found).
\<close>

fun flm_row ::
  "nat \<Rightarrow> nat \<Rightarrow> nat \<Rightarrow> (nat \<times> nat) list \<Rightarrow> nat list \<Rightarrow> (nat \<times> nat) list \<times> match
     \<Rightarrow> (nat \<times> nat) list \<times> match" where
  "flm_row i blo bhi j2len [] acc = acc"
| "flm_row i blo bhi j2len (j # js) (newj2len, best) =
     (if j < blo then flm_row i blo bhi j2len js (newj2len, best)
      else if j \<ge> bhi then (newj2len, best)
      else let k = (if j = 0 then 0
                    else case map_of j2len (j - 1) of None \<Rightarrow> 0 | Some v \<Rightarrow> v) + 1
           in flm_row i blo bhi j2len js
                (AList.update j k newj2len,
                 if k > snd (snd best) then (Suc i - k, Suc j - k, k) else best))"

fun flm_rows ::
  "string \<Rightarrow> string \<Rightarrow> nat \<Rightarrow> nat \<Rightarrow> nat list \<Rightarrow> (nat \<times> nat) list \<times> match \<Rightarrow> match" where
  "flm_rows a b blo bhi [] (j2len, best) = best"
| "flm_rows a b blo bhi (i # rest) (j2len, best) =
     flm_rows a b blo bhi rest (flm_row i blo bhi j2len (b2j_get b (a ! i)) ([], best))"

function extend_left :: "string \<Rightarrow> string \<Rightarrow> nat \<Rightarrow> nat \<Rightarrow> match \<Rightarrow> match" where
  "extend_left a b alo blo (besti, bestj, bestsize) =
     (if besti > alo \<and> bestj > blo \<and> a ! (besti - 1) = b ! (bestj - 1)
      then extend_left a b alo blo (besti - 1, bestj - 1, bestsize + 1)
      else (besti, bestj, bestsize))"
  by pat_completeness auto
termination
  by (relation "measure (\<lambda>(a, b, alo, blo, besti, bestj, bestsize). besti)") auto

function extend_right :: "string \<Rightarrow> string \<Rightarrow> nat \<Rightarrow> nat \<Rightarrow> match \<Rightarrow> match" where
  "extend_right a b ahi bhi (besti, bestj, bestsize) =
     (if besti + bestsize < ahi \<and> bestj + bestsize < bhi
         \<and> a ! (besti + bestsize) = b ! (bestj + bestsize)
      then extend_right a b ahi bhi (besti, bestj, bestsize + 1)
      else (besti, bestj, bestsize))"
  by pat_completeness auto
termination
  by (relation "measure (\<lambda>(a, b, ahi, bhi, besti, bestj, bestsize). ahi - (besti + bestsize))") auto

declare extend_left.simps [simp del] extend_right.simps [simp del]

definition find_longest_match :: "string \<Rightarrow> string \<Rightarrow> nat \<Rightarrow> nat \<Rightarrow> nat \<Rightarrow> nat \<Rightarrow> match" where
  "find_longest_match a b alo ahi blo bhi =
     extend_right a b ahi bhi
       (extend_left a b alo blo
          (flm_rows a b blo bhi [alo..<ahi] ([], (alo, blo, 0))))"

text \<open>
  \<open>get_matching_blocks\<close> works through a queue of index windows and sorts the blocks it
  found; the recursion below visits the same windows and lists the blocks in sorted
  order. It terminates because a non-empty match lies inside its window, which is what
  the next lemmas establish.
\<close>

definition j2len_ok :: "nat \<Rightarrow> nat \<Rightarrow> (nat \<times> nat) list \<Rightarrow> bool" where
  "j2len_ok blo n j2len = (\<forall>j v. map_of j2len j = Some v \<longrightarrow> blo \<le> j \<and> v \<le> n \<and> v \<le> Suc j - blo)"

definition best_ok :: "nat \<Rightarrow> nat \<Rightarrow> nat \<Rightarrow> nat \<Rightarrow> match \<Rightarrow> bool" where
  "best_ok alo ahi blo bhi m = (case m of (i, j, k) \<Rightarrow>
     (if k = 0 then i = alo \<and> j = blo
      else alo \<le> i \<and> blo \<le> j \<and> i + k \<le> ahi \<and> j + k \<le> bhi))"

lemma flm_row_ok:
  assumes "alo \<le> i" "i < ahi" "j2len_ok blo (i - alo) j2len"
  shows "j2len_ok blo (Suc i - alo) new \<Longrightarrow> best_ok alo ahi blo bhi best \<Longrightarrow>
     j2len_ok blo (Suc i - alo) (fst (flm_row i blo bhi j2len js (new, best)))
     \<and> best_ok alo ahi blo bhi (snd (flm_row i blo bhi j2len js (new, best)))"
proof (induction js arbitrary: new best)
  case Nil
  then show ?case by simp
next
  case (Cons j js)
  show ?case
  proof (cases "j < blo")
    case True
    then show ?thesis using Cons by simp
  next
    case low: False
    show ?thesis
    proof (cases "j \<ge> bhi")
      case True
      then show ?thesis using Cons low by simp
    next
      case False
      define k where "k = (if j = 0 then 0 else case map_of j2len (j - 1) of None \<Rightarrow> 0 | Some v \<Rightarrow> v) + 1"
      have kb: "k \<le> Suc i - alo \<and> k \<le> Suc j - blo \<and> 0 < k"
      proof (cases "j = 0")
        case True
        then show ?thesis using assms(1) low by (simp add: k_def)
      next
        case j0: False
        show ?thesis
        proof (cases "map_of j2len (j - 1)")
          case None
          then show ?thesis using assms(1) low j0 by (simp add: k_def) linarith
        next
          case (Some v)
          then have "blo \<le> j - 1 \<and> v \<le> i - alo \<and> v \<le> Suc (j - 1) - blo"
            using assms(3) by (simp add: j2len_ok_def)
          then show ?thesis using assms(1) low j0 Some by (simp add: k_def) linarith
        qed
      qed
      have new': "j2len_ok blo (Suc i - alo) (AList.update j k new)"
        using Cons.prems(1) kb low by (auto simp: j2len_ok_def update_conv')
      have best': "best_ok alo ahi blo bhi (if k > snd (snd best) then (Suc i - k, Suc j - k, k) else best)"
        using Cons.prems(2) kb low False assms(1,2) by (auto simp: best_ok_def)
      have step: "flm_row i blo bhi j2len (j # js) (new, best) =
          flm_row i blo bhi j2len js
            (AList.update j k new, if k > snd (snd best) then (Suc i - k, Suc j - k, k) else best)"
        using low False unfolding k_def by (simp add: Let_def)
      show ?thesis
        using Cons.IH[OF new' best'] by (simp only: step)
    qed
  qed
qed

lemma flm_rows_ok:
  "alo \<le> m \<Longrightarrow> j2len_ok blo (m - alo) j2len \<Longrightarrow> best_ok alo ahi blo bhi best \<Longrightarrow>
   best_ok alo ahi blo bhi (flm_rows a b blo bhi [m..<ahi] (j2len, best))"
proof (induction "ahi - m" arbitrary: m j2len best)
  case 0
  then show ?case by simp
next
  case (Suc n)
  then have lt: "m < ahi" by simp
  have e: "j2len_ok blo (Suc m - alo) []" by (simp add: j2len_ok_def)
  obtain new best' where r: "flm_row m blo bhi j2len (b2j_get b (a ! m)) ([], best) = (new, best')"
    by (cases "flm_row m blo bhi j2len (b2j_get b (a ! m)) ([], best)") auto
  from flm_row_ok[OF Suc.prems(1) lt Suc.prems(2) e Suc.prems(3), where js = "b2j_get b (a ! m)"] r
  have ok: "j2len_ok blo (Suc m - alo) new" "best_ok alo ahi blo bhi best'" by simp_all
  have "best_ok alo ahi blo bhi (flm_rows a b blo bhi [Suc m..<ahi] (new, best'))"
    using Suc.hyps(1)[of "Suc m" new best'] Suc.hyps(2) Suc.prems(1) ok by simp
  then show ?case using lt r by (simp add: upt_rec[of m ahi])
qed

lemma extend_left_ok:
  "best_ok alo ahi blo bhi m \<Longrightarrow> best_ok alo ahi blo bhi (extend_left a b alo blo m)"
proof (induction a b alo blo m rule: extend_left.induct)
  case (1 a b alo blo besti bestj bestsize)
  show ?case
  proof (cases "besti > alo \<and> bestj > blo \<and> a ! (besti - 1) = b ! (bestj - 1)")
    case True
    have "best_ok alo ahi blo bhi (besti - 1, bestj - 1, bestsize + 1)"
      using 1(2) True by (auto simp: best_ok_def split: if_splits)
    then show ?thesis using 1(1) True by (simp add: extend_left.simps[of a b alo blo besti bestj bestsize])
  next
    case False
    then show ?thesis using 1(2) by (auto simp: extend_left.simps[of a b alo blo besti bestj bestsize])
  qed
qed


lemma extend_right_ok:
  "best_ok alo ahi blo bhi m \<Longrightarrow> 
   best_ok alo ahi blo bhi (extend_right a b ahi bhi m)"
proof (induction a b ahi bhi m rule: extend_right.induct)
  case (1 a b ahi bhi besti bestj bestsize)
  show ?case
  proof (cases "besti + bestsize < ahi \<and> bestj + bestsize < bhi \<and> a ! (besti + bestsize) = b ! (bestj + bestsize)")
    case True
    have "best_ok alo ahi blo bhi (besti, bestj, bestsize + 1)"
      using 1(2) True by (auto simp: best_ok_def split: if_splits)
    then show ?thesis using 1(1) True by (simp add: extend_right.simps[of a b ahi bhi besti bestj bestsize])
  next
    case False
    then show ?thesis using 1(2) by (auto simp: extend_right.simps[of a b ahi bhi besti bestj bestsize])
  qed
qed

lemma find_longest_match_bounds:
  assumes "find_longest_match a b alo ahi blo bhi = (i, j, k)" "k \<noteq> 0"
  shows "alo \<le> i \<and> blo \<le> j \<and> i + k \<le> ahi \<and> j + k \<le> bhi"
proof -
  have "best_ok alo ahi blo bhi (alo, blo, 0)" by (simp add: best_ok_def)
  moreover have "j2len_ok blo (alo - alo) []" by (simp add: j2len_ok_def)
  ultimately have "best_ok alo ahi blo bhi (flm_rows a b blo bhi [alo..<ahi] ([], (alo, blo, 0)))"
    using flm_rows_ok[of alo alo blo "[]" ahi bhi "(alo, blo, 0)" a b] by simp
  then have "best_ok alo ahi blo bhi (find_longest_match a b alo ahi blo bhi)"
    unfolding find_longest_match_def by (intro extend_right_ok extend_left_ok)
  then show ?thesis using assms by (simp add: best_ok_def)
qed

function matching_blocks :: "string \<Rightarrow> string \<Rightarrow> nat \<Rightarrow> nat \<Rightarrow> nat \<Rightarrow> nat \<Rightarrow> match list" where
  "matching_blocks a b alo ahi blo bhi =
     (case find_longest_match a b alo ahi blo bhi of
        (i, j, k) \<Rightarrow>
          if k = 0 then []
          else (if alo < i \<and> blo < j then matching_blocks a b alo i blo j else [])
               @ [(i, j, k)]
               @ (if i + k < ahi \<and> j + k < bhi then matching_blocks a b (i + k) ahi (j + k) bhi
                  else []))"
  by pat_completeness auto
termination
proof (relation "measure (\<lambda>(a, b, alo, ahi, blo, bhi). ahi - alo)")
  show "wf (measure (\<lambda>(a, b, alo, ahi, blo, bhi). ahi - alo))" by simp
next
  fix a b :: string and alo ahi blo bhi i j k :: nat and x y
  assume "(i, y) = find_longest_match a b alo ahi blo bhi" "(j, k) = y" "k \<noteq> 0" "alo < i \<and> blo < j"
  then show "((a, b, alo, i, blo, j), (a, b, alo, ahi, blo, bhi)) \<in> measure (\<lambda>(a, b, alo, ahi, blo, bhi). ahi - alo)"
    using find_longest_match_bounds[of a b alo ahi blo bhi i j k] by auto
next
  fix a b :: string and alo ahi blo bhi i j k :: nat and x y
  assume "(i, y) = find_longest_match a b alo ahi blo bhi" "(j, k) = y" "k \<noteq> 0" "i + k < ahi \<and> j + k < bhi"
  then show "((a, b, i + k, ahi, j + k, bhi), (a, b, alo, ahi, blo, bhi)) \<in> measure (\<lambda>(a, b, alo, ahi, blo, bhi). ahi - alo)"
    using find_longest_match_bounds[of a b alo ahi blo bhi i j k] by auto
qed


declare matching_blocks.simps [simp del]

text \<open>
  \<open>ratio\<close> sums the sizes of the matching blocks (merging adjacent blocks keeps the
  sum); \<open>_calculate_ratio\<close> is \<open>2.0 * matches / length\<close>, or \<open>1.0\<close> for length 0. As
  for the first scorer, the float is kept as the exact quotient.
\<close>

definition calculate_ratio :: "nat \<Rightarrow> nat \<Rightarrow> rat" where
  "calculate_ratio matches len = (if len \<noteq> 0 then 2 * of_nat matches / of_nat len else 1)"

definition ratio :: "string \<Rightarrow> string \<Rightarrow> rat" where
  "ratio a b =
     calculate_ratio
       (sum_list (map (\<lambda>(i, j, k). k) (matching_blocks a b 0 (length a) 0 (length b))))
       (length a + length b)"

fun quick_matches :: "string \<Rightarrow> string \<Rightarrow> (char \<times> int) list \<Rightarrow> nat \<Rightarrow> nat" where
  "quick_matches b [] avail matches = matches"
| "quick_matches b (elt # rest) avail matches =
     (let numb = (case map_of avail elt of
                    Some v \<Rightarrow> v
                  | None \<Rightarrow> int (count_list b elt))
      in quick_matches b rest (AList.update elt (numb - 1) avail)
           (if numb > 0 then matches + 1 else matches))"

definition quick_ratio :: "string \<Rightarrow> string \<Rightarrow> rat" where
  "quick_ratio a b = calculate_ratio (quick_matches b a [] 0) (length a + length b)"

definition real_quick_ratio :: "string \<Rightarrow> string \<Rightarrow> rat" where
  "real_quick_ratio a b = calculate_ratio (min (length a) (length b)) (length a + length b)"

text \<open>
  \<open>get_close_matches(word, possibilities, n=1, cutoff=0.6)\<close>: the candidates that pass
  the three tests, each with its ratio, and then \<open>heapq.nlargest(1, result)\<close>, which for
  \<open>n = 1\<close> is \<open>max(result)\<close>: the first greatest pair, pairs compared by score and then
  by the candidate string.
\<close>

definition close_enough :: "string \<Rightarrow> string \<Rightarrow> bool" where
  "close_enough x word =
     (real_quick_ratio x word \<ge> 3 / 5 \<and> quick_ratio x word \<ge> 3 / 5 \<and> ratio x word \<ge> 3 / 5)"

definition scored_candidates :: "string \<Rightarrow> string list \<Rightarrow> (rat \<times> string) list" where
  "scored_candidates word possibilities =
     map (\<lambda>x. (ratio x word, x)) (filter (\<lambda>x. close_enough x word) possibilities)"

definition tuple_greater :: "rat \<times> string \<Rightarrow> rat \<times> string \<Rightarrow> bool" where
  "tuple_greater p q = (if fst p = fst q then snd p > snd q else fst p > fst q)"

fun py_max_from :: "rat \<times> string \<Rightarrow> (rat \<times> string) list \<Rightarrow> rat \<times> string" where
  "py_max_from m [] = m"
| "py_max_from m (x # xs) = py_max_from (if tuple_greater x m then x else m) xs"

definition nlargest1 :: "(rat \<times> string) list \<Rightarrow> (rat \<times> string) list" where
  "nlargest1 result = (case result of [] \<Rightarrow> [] | x # xs \<Rightarrow> [py_max_from x xs])"

definition get_close_matches :: "string \<Rightarrow> string list \<Rightarrow> string list" where
  "get_close_matches word possibilities = map snd (nlargest1 (scored_candidates word possibilities))"

definition find_best_match2 :: "string \<Rightarrow> tag_dict \<Rightarrow> py_error + string option" where
  "find_best_match2 tag allowed_tags_with_synonyms =
     (case get_close_matches (normalize_tag tag) (map fst allowed_tags_with_synonyms) of
        [] \<Rightarrow> Inr None
      | m # rest \<Rightarrow> Inr (map_of allowed_tags_with_synonyms m))"

definition apply_tag_rules2 ::
  "(nat \<Rightarrow> int) \<Rightarrow> cache \<Rightarrow> string \<Rightarrow> AllowedTagRecord list \<Rightarrow> bool \<Rightarrow> py_error + (string \<times> cache)" where
  "apply_tag_rules2 = apply_tag_rules_with find_best_match2"

section \<open>What the two selections are compared with\<close>

text \<open>
  Two predicates on a word, the list of keys in iteration order and a key, used to state
  what each \<open>find_best_match\<close> selects. \<open>first_strictly_best\<close> follows the words of the
  specification: the key scores strictly above 0.6, no key scores higher, and every
  earlier key scores strictly lower. \<open>greatest_candidate\<close> is the selection of
  \<open>get_close_matches\<close>: the key passes the three tests with an inclusive cutoff, and
  every other key that passes has a lower ratio, or the same ratio and a smaller string.
\<close>

definition first_strictly_best :: "string \<Rightarrow> string list \<Rightarrow> string \<Rightarrow> bool" where
  "first_strictly_best word keys k =
     (\<exists>pre post s.
        keys = pre @ k # post \<and> is_tokens_fuzzy_equal word k = Inr s \<and> 3 / 5 < s
        \<and> (\<forall>k' \<in> set pre. \<exists>s'. is_tokens_fuzzy_equal word k' = Inr s' \<and> s' < s)
        \<and> (\<forall>k' \<in> set post. \<exists>s'. is_tokens_fuzzy_equal word k' = Inr s' \<and> s' \<le> s))"

definition greatest_candidate :: "string \<Rightarrow> string list \<Rightarrow> string \<Rightarrow> bool" where
  "greatest_candidate word keys k =
     (k \<in> set keys \<and> close_enough k word
      \<and> (\<forall>k' \<in> set keys. close_enough k' word \<longrightarrow>
             ratio k' word < ratio k word \<or> (ratio k' word = ratio k word \<and> k' \<le> k)))"

section \<open>Example rule tables\<close>

definition display_svc :: "AllowedTagRecord list" where
  "display_svc =
     [\<lparr>allowed_name = ''display'', synonyms = None, immutable = False, separated = False\<rparr>,
      \<lparr>allowed_name = ''svc'', synonyms = None, immutable = False, separated = False\<rparr>]"

definition shadowed :: "AllowedTagRecord list" where
  "shadowed =
     [\<lparr>allowed_name = ''a'', synonyms = None, immutable = False, separated = False\<rparr>,
      \<lparr>allowed_name = ''b'', synonyms = Some ''a'', immutable = False, separated = False\<rparr>]"

definition long_name :: "AllowedTagRecord list" where
  "long_name =
     [\<lparr>allowed_name = ''abcdefg'', synonyms = None, immutable = False, separated = False\<rparr>]"

definition stale_cache :: cache where
  "stale_cache = [(''zzz'', 3), (''displai'', 4)]"

definition ties :: tag_dict where
  "ties = [(''abx'', ''abx''), (''aby'', ''aby'')]"

section \<open>The loop body as a resolution followed by a state update\<close>

text \<open>
  \<open>resolve\<close> is the part of the loop body that decides what a trimmed token
  contributes: the names it resolves to, or the empty list when exact lookup, composite
  splitting and fuzzy matching all fail. \<open>record_result\<close> is the state update that
  follows. Lemma \<open>process_tag_resolve\<close> shows that the loop body is their composition,
  and \<open>collect\<close> gathers the contributions of all tokens.
\<close>

definition resolve :: "matcher \<Rightarrow> tag_dict \<Rightarrow> string \<Rightarrow> py_error + string list" where
  "resolve find_best_match aws tag =
     (case map_of aws (normalize_tag tag) of
        Some name \<Rightarrow> Inr [name]
      | None \<Rightarrow>
          if split_composite_tag tag aws \<noteq> [] then Inr (split_composite_tag tag aws)
          else case find_best_match tag aws of
                 Inl e \<Rightarrow> Inl e
               | Inr best_match \<Rightarrow> if truthy best_match then Inr [the best_match] else Inr [])"

definition record_result :: "(nat \<Rightarrow> int) \<Rightarrow> bool \<Rightarrow> string \<Rightarrow> string list \<Rightarrow> loop_state \<Rightarrow> loop_state" where
  "record_result clock delayed_clean tag names st =
     (if names \<noteq> [] then st\<lparr>result_tags := result_tags st @ names\<rparr>
      else if delayed_clean
      then st\<lparr>invalid_tags_cache := AList.update tag (clock (now_calls st)) (invalid_tags_cache st),
              now_calls := Suc (now_calls st)\<rparr>
      else st)"

fun collect :: "matcher \<Rightarrow> tag_dict \<Rightarrow> string list \<Rightarrow> py_error + string list" where
  "collect find_best_match aws [] = Inr []"
| "collect find_best_match aws (raw # rest) =
     (case resolve find_best_match aws (py_strip raw) of
        Inl e \<Rightarrow> Inl e
      | Inr names \<Rightarrow>
          (case collect find_best_match aws rest of
             Inl e \<Rightarrow> Inl e
           | Inr others \<Rightarrow> Inr (names @ others)))"

text \<open>
  \<open>no_match\<close> is the test the loop body applies to the result of \<open>find_best_match\<close>
  before it records a token as invalid; \<open>index_value\<close> says that a name is stored in
  the index under some key.
\<close>

definition no_match :: "py_error + string option \<Rightarrow> bool" where
  "no_match r = (case r of Inl e \<Rightarrow> False | Inr best_match \<Rightarrow> \<not> truthy best_match)"

definition index_value :: "tag_dict \<Rightarrow> string \<Rightarrow> bool" where
  "index_value aws v = (\<exists>k. (k, v) \<in> set aws)"

lemma process_tag_resolve:
  "process_tag fbm clock aws dc raw st =
     (case resolve fbm aws (py_strip raw) of
        Inl e \<Rightarrow> Inl e
      | Inr names \<Rightarrow> Inr (record_result clock dc (py_strip raw) names st))"
  by (auto simp: process_tag_def resolve_def record_result_def Let_def
           split: option.splits sum.splits)

lemma result_tags_record_result:
  "result_tags (record_result clock dc tag names st) = result_tags st @ names"
  by (simp add: record_result_def)

lemma process_tags_collect:
  "map_sum id result_tags (process_tags fbm clock aws dc raws st) =
   map_sum id (\<lambda>names. result_tags st @ names) (collect fbm aws raws)"
proof (induction raws arbitrary: st)
  case Nil
  show ?case by simp
next
  case (Cons raw rest)
  show ?case
  proof (cases "resolve fbm aws (py_strip raw)")
    case (Inl e)
    then show ?thesis by (simp add: process_tag_resolve)
  next
    case (Inr names)
    show ?thesis
      using Cons.IH[of "record_result clock dc (py_strip raw) names st"] Inr
      by (cases "collect fbm aws rest") (simp_all add: process_tag_resolve result_tags_record_result)
  qed
qed

lemma apply_tag_rules_with_output:
  "map_sum id fst (apply_tag_rules_with fbm clock loaded tags rules dc) =
   map_sum id (\<lambda>names. py_join ''; '' (fromkeys names))
     (collect fbm (build_allowed_tags_with_synonyms rules) (py_split '';'' tags))"
proof -
  let ?aws = "build_allowed_tags_with_synonyms rules"
  let ?st0 = "\<lparr>result_tags = [], invalid_tags_cache = clean_cache (clock 0) loaded, now_calls = 1\<rparr>"
  have "map_sum id result_tags (process_tags fbm clock ?aws dc (py_split '';'' tags) ?st0)
      = map_sum id (\<lambda>names. result_tags ?st0 @ names) (collect fbm ?aws (py_split '';'' tags))"
    by (rule process_tags_collect)
  then show ?thesis
    by (cases "process_tags fbm clock ?aws dc (py_split '';'' tags) ?st0";
        cases "collect fbm ?aws (py_split '';'' tags)")
       (simp_all add: apply_tag_rules_with_def run_loop_def finish_def)
qed


section \<open>The cache loops as filters\<close>

lemma reconcile_tag_filter:
  "reconcile_tag tags k c = filter (\<lambda>p. \<not> (fst p = k \<and> k \<in> set tags)) c"
  by (auto simp: reconcile_tag_def AList.delete_eq intro!: filter_cong)

lemma fold_reconcile_tag:
  "fold (reconcile_tag tags) ks c = filter (\<lambda>p. \<not> (fst p \<in> set ks \<and> fst p \<in> set tags)) c"
proof (induction ks arbitrary: c)
  case Nil
  show ?case by simp
next
  case (Cons k ks)
  have "fold (reconcile_tag tags) (k # ks) c = fold (reconcile_tag tags) ks (reconcile_tag tags k c)"
    by simp
  also have "\<dots> = filter (\<lambda>p. \<not> (fst p \<in> set ks \<and> fst p \<in> set tags)) (reconcile_tag tags k c)"
    by (rule Cons.IH)
  also have "\<dots> = filter (\<lambda>p. \<not> (fst p \<in> set (k # ks) \<and> fst p \<in> set tags)) c"
    unfolding reconcile_tag_filter filter_filter by (rule filter_cong) auto
  finally show ?case .
qed

lemma reconcile_filter:
  "reconcile tags c = filter (\<lambda>(k, v). k \<notin> set tags) c"
  unfolding reconcile_def fold_reconcile_tag
  by (rule filter_cong) auto

lemma clean_tag_filter:
  assumes "distinct (map fst c)"
  shows "clean_tag now k c =
         filter (\<lambda>p. \<not> (fst p = k \<and> now - snd p > timedelta_days CACHE_EXPIRATION_DAYS)) c"
proof (cases "map_of c k")
  case None
  then have "\<And>p. p \<in> set c \<Longrightarrow> fst p \<noteq> k"
    by (metis map_of_eq_None_iff image_eqI)
  then have "filter (\<lambda>p. \<not> (fst p = k \<and> now - snd p > timedelta_days CACHE_EXPIRATION_DAYS)) c = c"
    by (intro filter_True) auto
  then show ?thesis using None by (simp add: clean_tag_def)
next
  case (Some ts)
  have only: "\<And>p. p \<in> set c \<Longrightarrow> fst p = k \<Longrightarrow> snd p = ts"
    using assms Some by (metis map_of_is_SomeI option.inject prod.collapse)
  show ?thesis
  proof (cases "now - ts > timedelta_days CACHE_EXPIRATION_DAYS")
    case True
    then show ?thesis using Some only
      by (auto simp: clean_tag_def AList.delete_eq intro!: filter_cong)
  next
    case False
    then have "filter (\<lambda>p. \<not> (fst p = k \<and> now - snd p > timedelta_days CACHE_EXPIRATION_DAYS)) c = c"
      using only by (intro filter_True) auto
    then show ?thesis using Some False by (simp add: clean_tag_def)
  qed
qed

lemma fold_clean_tag:
  "distinct (map fst c) \<Longrightarrow>
   fold (clean_tag now) ks c =
   filter (\<lambda>p. \<not> (fst p \<in> set ks \<and> now - snd p > timedelta_days CACHE_EXPIRATION_DAYS)) c"
proof (induction ks arbitrary: c)
  case Nil
  show ?case by simp
next
  case (Cons k ks)
  have d: "distinct (map fst (clean_tag now k c))"
    using Cons.prems by (simp add: clean_tag_filter distinct_map_filter)
  have "fold (clean_tag now) (k # ks) c = fold (clean_tag now) ks (clean_tag now k c)"
    by simp
  also have "\<dots> = filter (\<lambda>p. \<not> (fst p \<in> set ks \<and> now - snd p > timedelta_days CACHE_EXPIRATION_DAYS))
                     (clean_tag now k c)"
    by (rule Cons.IH[OF d])
  also have "\<dots> = filter (\<lambda>p. \<not> (fst p \<in> set (k # ks) \<and> now - snd p > timedelta_days CACHE_EXPIRATION_DAYS)) c"
    unfolding clean_tag_filter[OF Cons.prems] filter_filter by (rule filter_cong) auto
  finally show ?case .
qed

lemma clean_cache_filter:
  "distinct (map fst c) \<Longrightarrow>
   clean_cache now c = filter (\<lambda>(k, ts). \<not> now - ts > timedelta_days CACHE_EXPIRATION_DAYS) c"
  unfolding clean_cache_def
  by (simp add: fold_clean_tag) (rule filter_cong, auto)


section \<open>The first implementation never raises inside the resolver\<close>

text \<open>
  \<open>is_tokens_fuzzy_equal\<close> raises only for two empty tokens. The resolver calls
  \<open>find_best_match\<close> only when the normalized token is not a key of the index, so an
  empty normalized token never meets an empty key there.
\<close>

lemma count_equal_subtokens_le:
  "count_equal_subtokens cs second used n \<le> n + length cs"
proof (induction cs arbitrary: used n)
  case Nil
  show ?case by simp
next
  case (Cons c cs)
  show ?case
  proof (cases "mark_first_unused c second used")
    case None
    then show ?thesis using Cons.IH[of used n] by simp
  next
    case (Some used')
    then show ?thesis using Cons.IH[of used' "Suc n"] by simp
  qed
qed

lemma count_equal_subtokens_Nil:
  "count_equal_subtokens cs [] used n = n"
  by (induction cs arbitrary: used n) simp_all

lemma equal_subtokens_count_le: "equal_subtokens_count a b \<le> length a"
  using count_equal_subtokens_le[of a b "replicate (length b) False" 0]
  by (simp add: equal_subtokens_count_def)

lemma is_tokens_fuzzy_equal_raises_iff:
  "is_tokens_fuzzy_equal a b = Inl e \<longleftrightarrow> a = [] \<and> b = []"
proof
  assume "is_tokens_fuzzy_equal a b = Inl e"
  then have z: "int (length a) + int (length b) - int (equal_subtokens_count a b) = 0"
    by (simp add: is_tokens_fuzzy_equal_def Let_def split: if_splits)
  have "int (length b) \<le> 0" using z equal_subtokens_count_le[of a b] by linarith
  then have b: "b = []" by simp
  then have "equal_subtokens_count a b = 0"
    by (simp add: equal_subtokens_count_def count_equal_subtokens_Nil)
  with z b show "a = [] \<and> b = []" by simp
next
  assume "a = [] \<and> b = []"
  then show "is_tokens_fuzzy_equal a b = Inl e"
    by (cases e) (simp add: is_tokens_fuzzy_equal_def equal_subtokens_count_def)
qed

lemma best_match_loop_raises:
  "best_match_loop nt keys best = Inl e \<Longrightarrow> \<exists>k \<in> set keys. is_tokens_fuzzy_equal nt k = Inl e"
proof (induction keys arbitrary: best)
  case Nil
  then show ?case by simp
next
  case (Cons k keys)
  obtain bm bs where best: "best = (bm, bs)" by (cases best)
  show ?case
  proof (cases "is_tokens_fuzzy_equal nt k")
    case (Inl e')
    then show ?thesis using Cons.prems best by simp
  next
    case (Inr score)
    then show ?thesis using Cons.prems best Cons.IH by (auto split: if_splits)
  qed
qed

lemma find_best_match1_returns:
  assumes "map_of aws (normalize_tag tag) = None"
  shows "\<exists>r. find_best_match1 tag aws = Inr r"
proof (cases "best_match_loop (normalize_tag tag) (map fst aws) (None, 3 / 5)")
  case (Inl e)
  then obtain k where k: "k \<in> set (map fst aws)" "is_tokens_fuzzy_equal (normalize_tag tag) k = Inl e"
    using best_match_loop_raises by blast
  then have "normalize_tag tag = [] \<and> k = []" by (simp add: is_tokens_fuzzy_equal_raises_iff)
  with k(1) assms show ?thesis by (simp add: map_of_eq_None_iff)
next
  case (Inr best)
  then show ?thesis by (cases best) (simp add: find_best_match1_def)
qed

lemma resolve1_returns: "\<exists>names. resolve find_best_match1 aws tag = Inr names"
proof (cases "map_of aws (normalize_tag tag)")
  case None
  then obtain r where "find_best_match1 tag aws = Inr r" using find_best_match1_returns by blast
  then show ?thesis using None by (simp add: resolve_def)
next
  case (Some name)
  then show ?thesis by (simp add: resolve_def)
qed

lemma find_best_match2_returns: "\<exists>r. find_best_match2 tag aws = Inr r"
  by (simp add: find_best_match2_def split: list.splits)

lemma resolve2_returns: "\<exists>names. resolve find_best_match2 aws tag = Inr names"
proof -
  obtain r where "find_best_match2 tag aws = Inr r" using find_best_match2_returns by blast
  then show ?thesis by (simp add: resolve_def split: option.splits)
qed

lemma process_tags_returns:
  assumes "\<And>tag. \<exists>names. resolve fbm aws tag = Inr names"
  shows "\<exists>st'. process_tags fbm clock aws dc raws st = Inr st'"
proof (induction raws arbitrary: st)
  case Nil
  show ?case by simp
next
  case (Cons raw rest)
  obtain names where "resolve fbm aws (py_strip raw) = Inr names" using assms by blast
  then show ?case using Cons.IH by (simp add: process_tag_resolve)
qed

lemma set_update_subset: "set (AList.update k v c) \<subseteq> insert (k, v) (set c)"
  by (induction c) auto

lemma record_result_cache_entries:
  "set (invalid_tags_cache (record_result clock dc tag names st))
     \<subseteq> set (invalid_tags_cache st) \<union> (UNIV \<times> range clock)"
  using set_update_subset[of tag "clock (now_calls st)" "invalid_tags_cache st"]
  by (auto simp: record_result_def)

lemma process_tags_cache_entries:
  "process_tags fbm clock aws dc raws st = Inr st' \<Longrightarrow>
   set (invalid_tags_cache st') \<subseteq> set (invalid_tags_cache st) \<union> (UNIV \<times> range clock)"
proof (induction raws arbitrary: st)
  case Nil
  then show ?case by auto
next
  case (Cons raw rest)
  from Cons.prems obtain names where
    r: "resolve fbm aws (py_strip raw) = Inr names" and
    p: "process_tags fbm clock aws dc rest (record_result clock dc (py_strip raw) names st) = Inr st'"
    by (auto simp: process_tag_resolve split: sum.splits)
  show ?case
    using Cons.IH[OF p] record_result_cache_entries[of clock dc "py_strip raw" names st] by blast
qed

lemma saved_cache_entries:
  assumes "distinct (map fst loaded)"
    and "apply_tag_rules_with fbm clock loaded tags rules dc = Inr (out, saved)"
    and "(k, ts) \<in> set saved"
  shows "\<not> clock 0 - ts > timedelta_days CACHE_EXPIRATION_DAYS \<or> ts \<in> range clock"
proof -
  from assms(2) obtain st where
    run: "run_loop fbm clock loaded tags rules dc = Inr st" and
    fin: "finish dc st = (out, saved)"
    by (auto simp: apply_tag_rules_with_def split: sum.splits)
  have "set saved \<subseteq> set (invalid_tags_cache st)"
    using fin by (auto simp: finish_def reconcile_filter split: if_splits)
  moreover have "set (invalid_tags_cache st)
      \<subseteq> set (clean_cache (clock 0) loaded) \<union> (UNIV \<times> range clock)"
    using process_tags_cache_entries run unfolding run_loop_def by fastforce
  ultimately have "(k, ts) \<in> set (clean_cache (clock 0) loaded) \<or> ts \<in> range clock"
    using assms(3) by auto
  then show ?thesis
    by (auto simp: clean_cache_filter[OF assms(1)])
qed

lemma apply_tag_rules_with_returns:
  assumes "\<And>aws tag. \<exists>names. resolve fbm aws tag = Inr names"
  shows "\<exists>st. run_loop fbm clock loaded tags rules dc = Inr st
       \<and> apply_tag_rules_with fbm clock loaded tags rules dc = Inr (finish dc st)"
proof -
  obtain st where "run_loop fbm clock loaded tags rules dc = Inr st"
    unfolding run_loop_def using process_tags_returns[of fbm, OF assms] by blast
  then show ?thesis by (simp add: apply_tag_rules_with_def)
qed


section \<open>The empty token\<close>

lemma is_tokens_fuzzy_equal_empty_first:
  "k \<noteq> [] \<Longrightarrow> is_tokens_fuzzy_equal [] k = Inr 0"
  by (simp add: is_tokens_fuzzy_equal_def equal_subtokens_count_def)

lemma best_match_loop_empty_tag:
  "[] \<notin> set keys \<Longrightarrow> best_match_loop [] keys (None, 3 / 5) = Inr (None, 3 / 5)"
  by (induction keys) (auto simp: is_tokens_fuzzy_equal_empty_first)

lemma normalize_tag_Nil: "normalize_tag [] = []"
  by (simp add: normalize_tag_def py_lower_def py_replace_def)

lemma py_strip_Nil: "py_strip [] = []"
  by (simp add: py_strip_def)

lemma map_of_None_not_key: "map_of aws k = None \<Longrightarrow> k \<notin> set (map fst aws)"
  by (simp add: map_of_eq_None_iff)

lemma find_best_match1_empty_tag:
  "map_of aws [] = None \<Longrightarrow> find_best_match1 [] aws = Inr None"
  using best_match_loop_empty_tag[OF map_of_None_not_key, of aws]
  by (simp add: find_best_match1_def normalize_tag_Nil get_if_truthy_def)

lemma scored_candidates_empty_word:
  "[] \<notin> set keys \<Longrightarrow> scored_candidates [] keys = []"
  by (induction keys)
     (auto simp: scored_candidates_def close_enough_def real_quick_ratio_def calculate_ratio_def)

lemma find_best_match2_empty_tag:
  "map_of aws [] = None \<Longrightarrow> find_best_match2 [] aws = Inr None"
  using scored_candidates_empty_word[OF map_of_None_not_key, of aws]
  by (simp add: find_best_match2_def normalize_tag_Nil get_close_matches_def nlargest1_def)

lemma resolve_empty_tag:
  assumes "map_of aws [] = None \<Longrightarrow> fbm [] aws = Inr None"
  shows "resolve fbm aws [] = Inr (case map_of aws [] of None \<Rightarrow> [] | Some name \<Rightarrow> [name])"
  using assms
  by (auto simp: resolve_def normalize_tag_Nil split_composite_tag_def truthy_def List.map_filter_simps
           split: option.splits)

lemma apply_tag_rules_with_empty_input:
  assumes "\<And>aws. map_of aws [] = None \<Longrightarrow> fbm [] aws = Inr None"
  shows "apply_tag_rules_with fbm clock loaded [] rules dc =
     Inr (case map_of (build_allowed_tags_with_synonyms rules) [] of
            None \<Rightarrow>
              ([], if dc then AList.update [] (clock 1) (clean_cache (clock 0) loaded)
                   else clean_cache (clock 0) loaded)
          | Some name \<Rightarrow>
              (name, if dc then filter (\<lambda>(k, ts). k \<noteq> name) (clean_cache (clock 0) loaded)
                     else clean_cache (clock 0) loaded))"
  using resolve_empty_tag[of "build_allowed_tags_with_synonyms rules" fbm, OF assms]
  by (auto simp: apply_tag_rules_with_def run_loop_def py_split_def process_tag_resolve
        py_strip_Nil record_result_def finish_def fromkeys_def reconcile_filter
        split: option.splits intro!: filter_cong)

section \<open>Tokens with the same normal form, exact matches, and agreeing matchers\<close>

lemma find_best_match1_normalized:
  "normalize_tag t1 = normalize_tag t2 \<Longrightarrow> find_best_match1 t1 aws = find_best_match1 t2 aws"
  by (simp add: find_best_match1_def)

lemma find_best_match2_normalized:
  "normalize_tag t1 = normalize_tag t2 \<Longrightarrow> find_best_match2 t1 aws = find_best_match2 t2 aws"
  by (simp add: find_best_match2_def)

lemma resolve_normalized:
  assumes "normalize_tag t1 = normalize_tag t2"
    and "map_of aws (normalize_tag t1) \<noteq> None \<or> split_composite_tag t1 aws = split_composite_tag t2 aws"
    and "fbm t1 aws = fbm t2 aws"
  shows "resolve fbm aws t1 = resolve fbm aws t2"
  using assms by (auto simp: resolve_def split: option.splits)

lemma process_tag_result_tags:
  "map_sum id result_tags (process_tag fbm clock aws dc raw st) =
   map_sum id (\<lambda>names. result_tags st @ names) (resolve fbm aws (py_strip raw))"
  by (cases "resolve fbm aws (py_strip raw)")
     (simp_all add: process_tag_resolve result_tags_record_result)

lemma collect_exact:
  assumes "\<forall>raw \<in> set raws. map_of aws (normalize_tag (py_strip raw)) = Some (py_strip raw)"
  shows "collect fbm aws raws = Inr (map py_strip raws)"
  using assms by (induction raws) (simp_all add: resolve_def)

lemma process_tags_cong:
  assumes "\<forall>raw \<in> set raws. resolve f aws (py_strip raw) = resolve g aws (py_strip raw)"
  shows "process_tags f clock aws dc raws st = process_tags g clock aws dc raws st"
  using assms
proof (induction raws arbitrary: st)
  case Nil
  show ?case by simp
next
  case (Cons raw rest)
  then show ?case
    by (cases "resolve g aws (py_strip raw)") (simp_all add: process_tag_resolve)
qed

lemma resolve_cong:
  assumes "map_of aws (normalize_tag t) = None \<and> split_composite_tag t aws = [] \<longrightarrow> f t aws = g t aws"
  shows "resolve f aws t = resolve g aws t"
  using assms by (auto simp: resolve_def split: option.splits)

section \<open>Names in the result and tokens in the cache\<close>

text \<open>
  Every name in \<open>result_tags\<close> is a value of the index, every value of the index is an
  \<open>allowed_name\<close>, and the normal form of every \<open>allowed_name\<close> is a key. So a token
  that fails exact lookup is never an element of \<open>result_tags\<close>, and the reconciliation
  loop leaves its cache entry alone.
\<close>

lemma resolve_fails:
  "map_of aws (normalize_tag t) = None \<Longrightarrow> split_composite_tag t aws = [] \<Longrightarrow>
   no_match (fbm t aws) \<Longrightarrow> resolve fbm aws t = Inr []"
  by (auto simp: resolve_def no_match_def split: sum.splits)

lemma fold_update_keys:
  "fst ` set (fold (\<lambda>x. AList.update (f x) (g x)) xs d) = fst ` set d \<union> f ` set xs"
  by (induction xs arbitrary: d) (auto simp: dom_update)

lemma update_values:
  assumes "\<forall>p \<in> set d. snd p \<in> S" and "v \<in> S"
  shows "\<forall>p \<in> set (AList.update k v d). snd p \<in> S"
  using assms set_update_subset[of k v d] by auto

lemma fold_update_values:
  assumes "\<forall>p \<in> set d. snd p \<in> S" and "\<forall>x \<in> set xs. g x \<in> S"
  shows "\<forall>p \<in> set (fold (\<lambda>x. AList.update (f x) (g x)) xs d). snd p \<in> S"
  using assms
proof (induction xs arbitrary: d)
  case Nil
  then show ?case by simp
next
  case (Cons x xs)
  have "\<forall>p \<in> set (AList.update (f x) (g x) d). snd p \<in> S"
    using Cons.prems by (intro update_values) auto
  then show ?case using Cons.IH[of "AList.update (f x) (g x) d"] Cons.prems(2) by simp
qed

lemma add_synonyms_keys: "fst ` set d \<subseteq> fst ` set (add_synonyms r d)"
  by (auto simp: add_synonyms_def fold_update_keys split: option.splits)

lemma add_synonyms_values:
  assumes "\<forall>p \<in> set d. snd p \<in> S" and "allowed_name r \<in> S"
  shows "\<forall>p \<in> set (add_synonyms r d). snd p \<in> S"
proof (cases "synonyms r")
  case None
  then show ?thesis using assms by (simp add: add_synonyms_def)
next
  case (Some syns)
  have "\<forall>p \<in> set (fold (\<lambda>synonym. AList.update (normalize_tag synonym) (allowed_name r))
                      (py_split '', '' syns) d). snd p \<in> S"
    using assms by (intro fold_update_values) auto
  then show ?thesis using Some assms by (simp add: add_synonyms_def)
qed

lemma fold_add_synonyms_keys: "fst ` set d \<subseteq> fst ` set (fold add_synonyms rs d)"
proof (induction rs arbitrary: d)
  case Nil
  show ?case by simp
next
  case (Cons r rs)
  have "fst ` set d \<subseteq> fst ` set (add_synonyms r d)" by (rule add_synonyms_keys)
  also have "\<dots> \<subseteq> fst ` set (fold add_synonyms rs (add_synonyms r d))" by (rule Cons.IH)
  finally show ?case by simp
qed

lemma fold_add_synonyms_values:
  assumes "\<forall>p \<in> set d. snd p \<in> S" and "\<forall>r \<in> set rs. allowed_name r \<in> S"
  shows "\<forall>p \<in> set (fold add_synonyms rs d). snd p \<in> S"
  using assms
proof (induction rs arbitrary: d)
  case Nil
  then show ?case by simp
next
  case (Cons r rs)
  have "\<forall>p \<in> set (add_synonyms r d). snd p \<in> S"
    using Cons.prems by (intro add_synonyms_values) auto
  then show ?case using Cons.IH[of "add_synonyms r d"] Cons.prems(2) by simp
qed

lemma index_values_are_allowed_names:
  "\<forall>p \<in> set (build_allowed_tags_with_synonyms rules). snd p \<in> allowed_name ` set rules"
  unfolding build_allowed_tags_with_synonyms_def build_allowed_tags_def
  by (intro fold_add_synonyms_values fold_update_values) auto

lemma index_has_every_allowed_name:
  assumes "r \<in> set rules"
  shows "normalize_tag (allowed_name r) \<in> fst ` set (build_allowed_tags_with_synonyms rules)"
proof -
  have "normalize_tag (allowed_name r) \<in> fst ` set (build_allowed_tags rules)"
    using assms unfolding build_allowed_tags_def fold_update_keys by auto
  then show ?thesis
    using fold_add_synonyms_keys[of "build_allowed_tags rules" rules]
    unfolding build_allowed_tags_with_synonyms_def by blast
qed

lemma index_value_is_exact_match:
  assumes "(k, v) \<in> set (build_allowed_tags_with_synonyms rules)"
  shows "map_of (build_allowed_tags_with_synonyms rules) (normalize_tag v) \<noteq> None"
proof -
  have "snd (k, v) \<in> allowed_name ` set rules"
    using assms index_values_are_allowed_names by blast
  then obtain r where "r \<in> set rules" "v = allowed_name r" by auto
  then show ?thesis
    using index_has_every_allowed_name[of r rules] by (simp add: map_of_eq_None_iff)
qed

lemma map_of_index_value: "map_of aws k = Some v \<Longrightarrow> index_value aws v"
  unfolding index_value_def by (blast dest: map_of_SomeD)

lemma find_best_match1_value:
  assumes "find_best_match1 t aws = Inr (Some v)"
  shows "index_value aws v"
proof -
  from assms obtain bm where "get_if_truthy aws bm = Some v"
    by (auto simp: find_best_match1_def split: sum.splits prod.splits)
  then obtain k where "map_of aws k = Some v"
    by (auto simp: get_if_truthy_def split: option.splits if_splits)
  then show ?thesis by (rule map_of_index_value)
qed

lemma find_best_match2_value:
  assumes "find_best_match2 t aws = Inr (Some v)"
  shows "index_value aws v"
proof -
  from assms obtain m where "map_of aws m = Some v"
    by (auto simp: find_best_match2_def split: list.splits)
  then show ?thesis by (rule map_of_index_value)
qed

lemma split_composite_tag_values:
  "v \<in> set (split_composite_tag t aws) \<Longrightarrow> index_value aws v"
  by (auto simp: split_composite_tag_def List.map_filter_def intro: map_of_index_value)

lemma resolve_values:
  assumes "\<And>v. fbm t aws = Inr (Some v) \<Longrightarrow> index_value aws v"
    and "resolve fbm aws t = Inr names" and "v \<in> set names"
  shows "index_value aws v"
proof (cases "map_of aws (normalize_tag t)")
  case (Some name)
  then show ?thesis using assms(2,3) map_of_index_value[OF Some] by (auto simp: resolve_def)
next
  case None
  show ?thesis
  proof (cases "split_composite_tag t aws = []")
    case False
    then show ?thesis using assms(2,3) None split_composite_tag_values[of v t aws]
      by (auto simp: resolve_def)
  next
    case True
    then show ?thesis using assms None
      by (auto simp: resolve_def truthy_def split: sum.splits option.splits if_splits)
  qed
qed

lemma process_tags_result_values:
  assumes "\<And>t v. fbm t aws = Inr (Some v) \<Longrightarrow> index_value aws v"
  shows "process_tags fbm clock aws dc raws st = Inr st' \<Longrightarrow> v \<in> set (result_tags st') \<Longrightarrow>
         v \<in> set (result_tags st) \<or> index_value aws v"
proof (induction raws arbitrary: st)
  case Nil
  then show ?case by auto
next
  case (Cons raw rest)
  from Cons.prems(1) obtain names where
    r: "resolve fbm aws (py_strip raw) = Inr names" and
    p: "process_tags fbm clock aws dc rest (record_result clock dc (py_strip raw) names st) = Inr st'"
    by (auto simp: process_tag_resolve split: sum.splits)
  from Cons.IH[OF p Cons.prems(2)]
  have "v \<in> set (result_tags st) \<or> v \<in> set names \<or> index_value aws v"
    by (auto simp: result_tags_record_result)
  moreover have "index_value aws v" if "v \<in> set names"
    using resolve_values[of fbm "py_strip raw" aws names v] assms r that by blast
  ultimately show ?case by blast
qed

lemma map_of_update_other: "k \<noteq> t \<Longrightarrow> map_of (AList.update k v c) t = map_of c t"
  by (simp add: update_conv')

lemma process_tags_failed_cached:
  assumes "resolve fbm aws tag = Inr []"
  shows "process_tags fbm clock aws True raws st = Inr st' \<Longrightarrow> 1 \<le> now_calls st \<Longrightarrow>
         tag \<in> py_strip ` set raws \<or> (\<exists>n\<ge>1. map_of (invalid_tags_cache st) tag = Some (clock n)) \<Longrightarrow>
         \<exists>n\<ge>1. map_of (invalid_tags_cache st') tag = Some (clock n)"
proof (induction raws arbitrary: st)
  case Nil
  then show ?case by simp
next
  case (Cons raw rest)
  from Cons.prems(1) obtain names where
    r: "resolve fbm aws (py_strip raw) = Inr names" and
    p: "process_tags fbm clock aws True rest (record_result clock True (py_strip raw) names st) = Inr st'"
    by (auto simp: process_tag_resolve split: sum.splits)
  let ?st1 = "record_result clock True (py_strip raw) names st"
  have n1: "1 \<le> now_calls ?st1"
    using Cons.prems(2) by (simp add: record_result_def)
  have step: "tag \<in> py_strip ` set rest \<or> (\<exists>n\<ge>1. map_of (invalid_tags_cache ?st1) tag = Some (clock n))"
  proof (cases "py_strip raw = tag")
    case True
    then have "names = []" using r assms by simp
    then have "map_of (invalid_tags_cache ?st1) tag = Some (clock (now_calls st))"
      using True by (simp add: record_result_def update_conv')
    then show ?thesis using Cons.prems(2) by blast
  next
    case False
    have "map_of (invalid_tags_cache ?st1) tag = map_of (invalid_tags_cache st) tag"
      using False by (simp add: record_result_def update_conv')
    then show ?thesis using Cons.prems(3) False by auto
  qed
  show ?case by (rule Cons.IH[OF p n1 step])
qed

lemma failed_token_saved:
  assumes vals: "\<And>t v. fbm t (build_allowed_tags_with_synonyms rules) = Inr (Some v)
                     \<Longrightarrow> index_value (build_allowed_tags_with_synonyms rules) v"
    and rets: "\<And>t. \<exists>names. resolve fbm (build_allowed_tags_with_synonyms rules) t = Inr names"
    and raw: "raw \<in> set (py_split '';'' tags)"
    and fails: "resolve fbm (build_allowed_tags_with_synonyms rules) (py_strip raw) = Inr []"
  shows "\<exists>out saved n. apply_tag_rules_with fbm clock loaded tags rules True = Inr (out, saved)
           \<and> 1 \<le> n \<and> map_of saved (py_strip raw) = Some (clock n)"
proof -
  let ?aws = "build_allowed_tags_with_synonyms rules"
  let ?st0 = "\<lparr>result_tags = [], invalid_tags_cache = clean_cache (clock 0) loaded, now_calls = 1\<rparr>"
  obtain st where run: "process_tags fbm clock ?aws True (py_split '';'' tags) ?st0 = Inr st"
    using process_tags_returns[of fbm ?aws, OF rets] by blast
  have "\<exists>n\<ge>1. map_of (invalid_tags_cache st) (py_strip raw) = Some (clock n)"
    using process_tags_failed_cached[OF fails run] raw by auto
  then obtain n where n: "1 \<le> n" "map_of (invalid_tags_cache st) (py_strip raw) = Some (clock n)"
    by blast
  have notin: "py_strip raw \<notin> set (result_tags st)"
  proof
    assume "py_strip raw \<in> set (result_tags st)"
    then have "index_value ?aws (py_strip raw)"
      using process_tags_result_values[of fbm ?aws clock True "py_split '';'' tags" ?st0 st "py_strip raw"]
            vals run by auto
    then have "map_of ?aws (normalize_tag (py_strip raw)) \<noteq> None"
      using index_value_is_exact_match unfolding index_value_def by blast
    then show False using fails by (auto simp: resolve_def)
  qed
  have "map_of (filter (\<lambda>(k, ts). k \<notin> set (result_tags st)) (invalid_tags_cache st)) (py_strip raw)
        = Some (clock n)"
    using n(2) notin by (intro map_of_filter_in) auto
  then show ?thesis
    using run n(1)
    by (auto simp: apply_tag_rules_with_def run_loop_def finish_def reconcile_filter)
qed

section \<open>What the two matchers select\<close>

lemma best_match_loop_spec:
  "best_match_loop word keys (bm, bs) = Inr (bm', bs') \<Longrightarrow>
     (\<forall>k \<in> set keys. \<exists>s. is_tokens_fuzzy_equal word k = Inr s \<and> s \<le> bs') \<and> bs \<le> bs' \<and>
     ((bm', bs') = (bm, bs) \<or>
      (\<exists>pre k post. keys = pre @ k # post \<and> bm' = Some k
          \<and> is_tokens_fuzzy_equal word k = Inr bs' \<and> bs < bs'
          \<and> (\<forall>k' \<in> set pre. \<exists>s. is_tokens_fuzzy_equal word k' = Inr s \<and> s < bs')))"
proof (induction keys arbitrary: bm bs)
  case Nil
  then show ?case by simp
next
  case (Cons k0 rest)
  from Cons.prems obtain s0 where s0: "is_tokens_fuzzy_equal word k0 = Inr s0"
    by (cases "is_tokens_fuzzy_equal word k0") auto
  show ?case
  proof (cases "s0 > bs")
    case True
    then have run: "best_match_loop word rest (Some k0, s0) = Inr (bm', bs')"
      using Cons.prems s0 by simp
    from Cons.IH[OF run] have
      all: "\<forall>k \<in> set rest. \<exists>s. is_tokens_fuzzy_equal word k = Inr s \<and> s \<le> bs'" and
      le: "s0 \<le> bs'" and
      alt: "(bm', bs') = (Some k0, s0) \<or>
            (\<exists>pre k post. rest = pre @ k # post \<and> bm' = Some k
               \<and> is_tokens_fuzzy_equal word k = Inr bs' \<and> s0 < bs'
               \<and> (\<forall>k' \<in> set pre. \<exists>s. is_tokens_fuzzy_equal word k' = Inr s \<and> s < bs'))"
      by blast+
    have all': "\<forall>k \<in> set (k0 # rest). \<exists>s. is_tokens_fuzzy_equal word k = Inr s \<and> s \<le> bs'"
      using all le s0 by simp
    have "\<exists>pre k post. k0 # rest = pre @ k # post \<and> bm' = Some k
          \<and> is_tokens_fuzzy_equal word k = Inr bs' \<and> bs < bs'
          \<and> (\<forall>k' \<in> set pre. \<exists>s. is_tokens_fuzzy_equal word k' = Inr s \<and> s < bs')"
      using alt
    proof
      assume "(bm', bs') = (Some k0, s0)"
      then have "k0 # rest = [] @ k0 # rest \<and> bm' = Some k0
          \<and> is_tokens_fuzzy_equal word k0 = Inr bs' \<and> bs < bs'
          \<and> (\<forall>k' \<in> set []. \<exists>s. is_tokens_fuzzy_equal word k' = Inr s \<and> s < bs')"
        using s0 True by simp
      then show ?thesis by blast
    next
      assume "\<exists>pre k post. rest = pre @ k # post \<and> bm' = Some k
               \<and> is_tokens_fuzzy_equal word k = Inr bs' \<and> s0 < bs'
               \<and> (\<forall>k' \<in> set pre. \<exists>s. is_tokens_fuzzy_equal word k' = Inr s \<and> s < bs')"
      then obtain pre k post where
        h: "rest = pre @ k # post" "bm' = Some k" "is_tokens_fuzzy_equal word k = Inr bs'" "s0 < bs'"
           "\<forall>k' \<in> set pre. \<exists>s. is_tokens_fuzzy_equal word k' = Inr s \<and> s < bs'"
        by blast
      have "k0 # rest = (k0 # pre) @ k # post \<and> bm' = Some k
          \<and> is_tokens_fuzzy_equal word k = Inr bs' \<and> bs < bs'
          \<and> (\<forall>k' \<in> set (k0 # pre). \<exists>s. is_tokens_fuzzy_equal word k' = Inr s \<and> s < bs')"
        using h s0 True by simp
      then show ?thesis by blast
    qed
    then show ?thesis using all' le True by simp
  next
    case False
    then have run: "best_match_loop word rest (bm, bs) = Inr (bm', bs')"
      using Cons.prems s0 by simp
    from Cons.IH[OF run] have
      all: "\<forall>k \<in> set rest. \<exists>s. is_tokens_fuzzy_equal word k = Inr s \<and> s \<le> bs'" and
      le: "bs \<le> bs'" and
      alt: "(bm', bs') = (bm, bs) \<or>
            (\<exists>pre k post. rest = pre @ k # post \<and> bm' = Some k
               \<and> is_tokens_fuzzy_equal word k = Inr bs' \<and> bs < bs'
               \<and> (\<forall>k' \<in> set pre. \<exists>s. is_tokens_fuzzy_equal word k' = Inr s \<and> s < bs'))"
      by blast+
    have all': "\<forall>k \<in> set (k0 # rest). \<exists>s. is_tokens_fuzzy_equal word k = Inr s \<and> s \<le> bs'"
      using all le s0 False by simp
    have "(bm', bs') = (bm, bs) \<or>
          (\<exists>pre k post. k0 # rest = pre @ k # post \<and> bm' = Some k
          \<and> is_tokens_fuzzy_equal word k = Inr bs' \<and> bs < bs'
          \<and> (\<forall>k' \<in> set pre. \<exists>s. is_tokens_fuzzy_equal word k' = Inr s \<and> s < bs'))"
      using alt
    proof
      assume "(bm', bs') = (bm, bs)"
      then show ?thesis by blast
    next
      assume "\<exists>pre k post. rest = pre @ k # post \<and> bm' = Some k
               \<and> is_tokens_fuzzy_equal word k = Inr bs' \<and> bs < bs'
               \<and> (\<forall>k' \<in> set pre. \<exists>s. is_tokens_fuzzy_equal word k' = Inr s \<and> s < bs')"
      then obtain pre k post where
        h: "rest = pre @ k # post" "bm' = Some k" "is_tokens_fuzzy_equal word k = Inr bs'" "bs < bs'"
           "\<forall>k' \<in> set pre. \<exists>s. is_tokens_fuzzy_equal word k' = Inr s \<and> s < bs'"
        by blast
      have "k0 # rest = (k0 # pre) @ k # post \<and> bm' = Some k
          \<and> is_tokens_fuzzy_equal word k = Inr bs' \<and> bs < bs'
          \<and> (\<forall>k' \<in> set (k0 # pre). \<exists>s. is_tokens_fuzzy_equal word k' = Inr s \<and> s < bs')"
        using h s0 False by simp
      then show ?thesis by blast
    qed
    then show ?thesis using all' le by simp
  qed
qed

lemma is_tokens_fuzzy_equal_empty_key:
  "is_tokens_fuzzy_equal word [] = Inr s \<Longrightarrow> s = 0"
  by (auto simp: is_tokens_fuzzy_equal_def equal_subtokens_count_def count_equal_subtokens_Nil
           split: if_splits)

lemma find_best_match1_selection:
  assumes "find_best_match1 tag aws = Inr r"
  shows "case r of
           Some name \<Rightarrow>
             \<exists>k. first_strictly_best (normalize_tag tag) (map fst aws) k \<and> map_of aws k = Some name
         | None \<Rightarrow>
             \<forall>k \<in> set (map fst aws).
               \<exists>s. is_tokens_fuzzy_equal (normalize_tag tag) k = Inr s \<and> s \<le> 3 / 5"
proof -
  let ?w = "normalize_tag tag"
  from assms obtain bm' bs' where
    run: "best_match_loop ?w (map fst aws) (None, 3 / 5) = Inr (bm', bs')" and
    r: "r = get_if_truthy aws bm'"
    by (auto simp: find_best_match1_def split: sum.splits prod.splits)
  from best_match_loop_spec[OF run] have
    all: "\<forall>k \<in> set (map fst aws). \<exists>s. is_tokens_fuzzy_equal ?w k = Inr s \<and> s \<le> bs'" and
    alt: "(bm', bs') = (None, 3 / 5) \<or>
          (\<exists>pre k post. map fst aws = pre @ k # post \<and> bm' = Some k
             \<and> is_tokens_fuzzy_equal ?w k = Inr bs' \<and> 3 / 5 < bs'
             \<and> (\<forall>k' \<in> set pre. \<exists>s. is_tokens_fuzzy_equal ?w k' = Inr s \<and> s < bs'))"
    by blast+
  from alt show ?thesis
  proof
    assume "(bm', bs') = (None, 3 / 5)"
    then have b: "bm' = None" and s: "bs' = 3 / 5" by simp_all
    have rn: "r = None" using r b by (simp add: get_if_truthy_def)
    have "\<forall>k \<in> set (map fst aws).
            \<exists>s. is_tokens_fuzzy_equal ?w k = Inr s \<and> s \<le> 3 / 5"
      using all unfolding s .
    then show ?thesis unfolding rn option.case .
  next
    assume "\<exists>pre k post. map fst aws = pre @ k # post \<and> bm' = Some k
             \<and> is_tokens_fuzzy_equal ?w k = Inr bs' \<and> 3 / 5 < bs'
             \<and> (\<forall>k' \<in> set pre. \<exists>s. is_tokens_fuzzy_equal ?w k' = Inr s \<and> s < bs')"
    then obtain pre k post where
      h: "map fst aws = pre @ k # post" "bm' = Some k" "is_tokens_fuzzy_equal ?w k = Inr bs'"
         "3 / 5 < bs'" "\<forall>k' \<in> set pre. \<exists>s. is_tokens_fuzzy_equal ?w k' = Inr s \<and> s < bs'"
      by blast
    have post: "\<forall>k' \<in> set post. \<exists>s'. is_tokens_fuzzy_equal ?w k' = Inr s' \<and> s' \<le> bs'"
      using all h(1) by simp
    have fsb: "first_strictly_best ?w (map fst aws) k"
      unfolding first_strictly_best_def using h post by blast
    have "k \<noteq> []" using is_tokens_fuzzy_equal_empty_key[of ?w bs'] h(3,4) by auto
    moreover have "k \<in> set (map fst aws)" using h(1) by simp
    then obtain name where name: "map_of aws k = Some name"
      by (cases "map_of aws k") (auto simp: map_of_eq_None_iff)
    ultimately have "r = Some name" using r h(2) by (simp add: get_if_truthy_def)
    then show ?thesis using fsb name by auto
  qed
qed

lemma tuple_greater_trans:
  "\<not> tuple_greater x m \<Longrightarrow> tuple_greater y m \<Longrightarrow> \<not> tuple_greater x y"
  by (auto simp: tuple_greater_def split: if_splits)

lemma py_max_from_spec:
  "py_max_from m xs \<in> set (m # xs) \<and> (\<forall>x \<in> set (m # xs). \<not> tuple_greater x (py_max_from m xs))"
proof (induction xs arbitrary: m)
  case Nil
  show ?case by (simp add: tuple_greater_def)
next
  case (Cons y ys)
  show ?case
  proof (cases "tuple_greater y m")
    case True
    have "\<not> tuple_greater m (py_max_from y ys)"
    proof -
      have a: "\<not> tuple_greater y (py_max_from y ys)" using Cons.IH[of y] by simp
      show ?thesis using a True by (auto simp: tuple_greater_def split: if_splits)
    qed
    then show ?thesis using Cons.IH[of y] True by auto
  next
    case False
    have "\<not> tuple_greater y (py_max_from m ys)"
    proof -
      have a: "\<not> tuple_greater m (py_max_from m ys)" using Cons.IH[of m] by simp
      show ?thesis using a False by (auto simp: tuple_greater_def split: if_splits)
    qed
    then show ?thesis using Cons.IH[of m] False by auto
  qed
qed

lemma find_best_match2_selection:
  "\<exists>r. find_best_match2 tag aws = Inr r \<and>
     (case r of
        Some name \<Rightarrow>
          \<exists>k. greatest_candidate (normalize_tag tag) (map fst aws) k \<and> map_of aws k = Some name
      | None \<Rightarrow> \<forall>k \<in> set (map fst aws). \<not> close_enough k (normalize_tag tag))"
proof (cases "scored_candidates (normalize_tag tag) (map fst aws)")
  case Nil
  then have "\<forall>k \<in> set (map fst aws). \<not> close_enough k (normalize_tag tag)"
    by (auto simp: scored_candidates_def filter_empty_conv)
  moreover have "find_best_match2 tag aws = Inr None"
    using Nil by (simp add: find_best_match2_def get_close_matches_def nlargest1_def)
  ultimately show ?thesis by simp
next
  case (Cons x xs)
  let ?w = "normalize_tag tag"
  let ?keys = "map fst aws"
  define best where "best = py_max_from x xs"
  have mem: "best \<in> set (scored_candidates ?w ?keys)"
    and top: "\<forall>c \<in> set (scored_candidates ?w ?keys). \<not> tuple_greater c best"
    using py_max_from_spec[of x xs] Cons unfolding best_def by simp_all
  from mem have k: "snd best \<in> set ?keys" "close_enough (snd best) ?w" "fst best = ratio (snd best) ?w"
    by (force simp: scored_candidates_def)+
  have great: "ratio k' ?w < ratio (snd best) ?w \<or> (ratio k' ?w = ratio (snd best) ?w \<and> k' \<le> snd best)"
    if "k' \<in> set ?keys" "close_enough k' ?w" for k'
  proof -
    have "(ratio k' ?w, k') \<in> set (scored_candidates ?w ?keys)"
      using that by (auto simp: scored_candidates_def)
    then have "\<not> tuple_greater (ratio k' ?w, k') best" using top by blast
    then show ?thesis using k(3) by (auto simp: tuple_greater_def split: if_splits)
  qed
  have gc: "greatest_candidate ?w ?keys (snd best)"
    unfolding greatest_candidate_def using k great by blast
  obtain name where name: "map_of aws (snd best) = Some name"
    using k(1) by (cases "map_of aws (snd best)") (auto simp: map_of_eq_None_iff)
  have "find_best_match2 tag aws = Inr (Some name)"
    using Cons name
    by (simp add: find_best_match2_def get_close_matches_def nlargest1_def best_def)
  then show ?thesis using gc name by auto
qed

section \<open>Claims\<close>

text \<open>
  C7 (the scorer is total and returns 0 for two empty strings). The code has no special
  case: for two empty tokens the count and both lengths are 0, and the division
  \<open>0 / (0 + 0 - 0)\<close> raises \<open>ZeroDivisionError\<close>.
\<close>

theorem is_tokens_fuzzy_equal_empty_raises:
  "is_tokens_fuzzy_equal [] [] = Inl ZeroDivisionError"
  by (simp add: is_tokens_fuzzy_equal_def equal_subtokens_count_def)

text \<open>
  C10 (the returned string does not depend on the loaded cache). For both
  implementations, two runs on the same tags, rules and flag return the same string, or
  raise the same exception, whatever the two loaded caches and the two clocks are.
\<close>

theorem output_independent_of_cache:
  "map_sum id fst (apply_tag_rules1 clock loaded tags rules delayed_clean) =
     map_sum id fst (apply_tag_rules1 clock' loaded' tags rules delayed_clean)
   \<and> map_sum id fst (apply_tag_rules2 clock loaded tags rules delayed_clean) =
     map_sum id fst (apply_tag_rules2 clock' loaded' tags rules delayed_clean)"
  by (simp add: apply_tag_rules1_def apply_tag_rules2_def apply_tag_rules_with_output)

text \<open>
  C5 (reconciliation). With \<open>delayed_clean\<close> true both implementations return, and the
  dictionary they save is the dictionary the loop left with exactly the entries removed
  whose raw key is, character for character, an element of \<open>result_tags\<close>, the
  sequence of canonical names resolved in this run. No normalization is applied to
  either side.
\<close>

theorem reconciliation_removes_exactly_resolved_names:
  "(\<exists>st. run_loop find_best_match1 clock loaded tags rules True = Inr st
       \<and> apply_tag_rules1 clock loaded tags rules True =
           Inr (py_join ''; '' (fromkeys (result_tags st)),
                filter (\<lambda>(k, ts). k \<notin> set (result_tags st)) (invalid_tags_cache st)))
   \<and> (\<exists>st. run_loop find_best_match2 clock loaded tags rules True = Inr st
       \<and> apply_tag_rules2 clock loaded tags rules True =
           Inr (py_join ''; '' (fromkeys (result_tags st)),
                filter (\<lambda>(k, ts). k \<notin> set (result_tags st)) (invalid_tags_cache st)))"
  unfolding apply_tag_rules1_def apply_tag_rules2_def
  using apply_tag_rules_with_returns[of find_best_match1 clock loaded tags rules True]
        apply_tag_rules_with_returns[of find_best_match2 clock loaded tags rules True]
        resolve1_returns resolve2_returns
  by (simp add: finish_def reconcile_filter)


text \<open>
  C6 (TTL law). For a loaded dictionary (distinct keys) and a clock that does not run
  backwards during the call, both implementations return for either value of
  \<open>delayed_clean\<close>, and the saved dictionary has no entry whose timestamp is more than
  14 days older than the time of the call. In particular every loaded entry that is
  strictly older than 14 days is gone, whether or not its token occurs in the input; a
  token that fails again is stored anew with a timestamp of this call.
\<close>

theorem expired_entries_absent_after_call:
  assumes "distinct (map fst loaded)" and "\<forall>n. clock 0 \<le> clock n"
  shows "(\<exists>out saved. apply_tag_rules1 clock loaded tags rules delayed_clean = Inr (out, saved)
            \<and> (\<forall>(k, ts) \<in> set saved. \<not> clock 0 - ts > timedelta_days CACHE_EXPIRATION_DAYS))
       \<and> (\<exists>out saved. apply_tag_rules2 clock loaded tags rules delayed_clean = Inr (out, saved)
            \<and> (\<forall>(k, ts) \<in> set saved. \<not> clock 0 - ts > timedelta_days CACHE_EXPIRATION_DAYS))"
proof -
  have fresh: "\<not> clock 0 - ts > timedelta_days CACHE_EXPIRATION_DAYS" if r: "ts \<in> range clock" for ts
  proof -
    obtain n where "ts = clock n" using r by auto
    moreover have "clock 0 \<le> clock n" using assms(2) by simp
    ultimately show ?thesis by (simp add: timedelta_days_def CACHE_EXPIRATION_DAYS_def)
  qed
  have gen: "\<exists>out saved. apply_tag_rules_with fbm clock loaded tags rules delayed_clean = Inr (out, saved)
            \<and> (\<forall>(k, ts) \<in> set saved. \<not> clock 0 - ts > timedelta_days CACHE_EXPIRATION_DAYS)"
    if h: "\<And>aws tag. \<exists>names. resolve fbm aws tag = Inr names" for fbm
  proof -
    obtain st where a: "apply_tag_rules_with fbm clock loaded tags rules delayed_clean = Inr (finish delayed_clean st)"
      using apply_tag_rules_with_returns[of fbm, OF h] by blast
    obtain out saved where f: "finish delayed_clean st = (out, saved)" by (cases "finish delayed_clean st")
    have "\<not> clock 0 - ts > timedelta_days CACHE_EXPIRATION_DAYS" if "(k, ts) \<in> set saved" for k ts
      using saved_cache_entries[OF assms(1) a[unfolded f] that] fresh by blast
    then show ?thesis using a f by auto
  qed
  show ?thesis
    unfolding apply_tag_rules1_def apply_tag_rules2_def
    using gen[of find_best_match1] gen[of find_best_match2] resolve1_returns resolve2_returns
    by blast
qed


theorem expired_entries_absent_after_call_witness:
  "distinct (map fst [(''old'', 3 :: int), (''x'', 4)])
   \<and> (\<forall>n. (\<lambda>n. 1209600000004 + int n) 0 \<le> (\<lambda>n. 1209600000004 + int n) n)
   \<and> (\<exists>out saved.
         apply_tag_rules1 (\<lambda>n. 1209600000004 + int n) [(''old'', 3), (''x'', 4)] ''old'' [] True
           = Inr (out, saved)
         \<and> (\<forall>(k, ts) \<in> set saved.
               \<not> (\<lambda>n. 1209600000004 + int n) 0 - ts > timedelta_days CACHE_EXPIRATION_DAYS))"
proof -
  have h1: "distinct (map fst [(''old'', 3 :: int), (''x'', 4)])" by simp
  have h2: "\<forall>n. (\<lambda>n. 1209600000004 + int n) 0 \<le> (\<lambda>n. 1209600000004 + int n) n" by simp
  show ?thesis
    using h1 h2 expired_entries_absent_after_call[OF h1 h2, of "''old''" "[]" True] by blast
qed

text \<open>
  C2 (empty input), as amended. \<open>"".split(";")\<close> is \<open>[""]\<close>, so the loop runs once, on
  the empty token. If the synonym index has no empty key, the empty string is returned;
  with \<open>delayed_clean\<close> false the saved cache is the loaded one without its expired
  entries, and with \<open>delayed_clean\<close> true the empty token is also stored in it with the
  time of the second clock reading. If the index has the empty key (a rule with an empty
  name, or a synonyms string with an empty item), the name stored under it is returned.
\<close>

theorem empty_input_processes_the_empty_token:
  "apply_tag_rules1 clock loaded [] rules delayed_clean =
     Inr (case map_of (build_allowed_tags_with_synonyms rules) [] of
            None \<Rightarrow>
              ([], if delayed_clean
                   then AList.update [] (clock 1) (clean_cache (clock 0) loaded)
                   else clean_cache (clock 0) loaded)
          | Some name \<Rightarrow>
              (name, if delayed_clean
                     then filter (\<lambda>(k, ts). k \<noteq> name) (clean_cache (clock 0) loaded)
                     else clean_cache (clock 0) loaded))
   \<and> apply_tag_rules2 clock loaded [] rules delayed_clean =
     Inr (case map_of (build_allowed_tags_with_synonyms rules) [] of
            None \<Rightarrow>
              ([], if delayed_clean
                   then AList.update [] (clock 1) (clean_cache (clock 0) loaded)
                   else clean_cache (clock 0) loaded)
          | Some name \<Rightarrow>
              (name, if delayed_clean
                     then filter (\<lambda>(k, ts). k \<noteq> name) (clean_cache (clock 0) loaded)
                     else clean_cache (clock 0) loaded))"
  unfolding apply_tag_rules1_def apply_tag_rules2_def
  using apply_tag_rules_with_empty_input[of find_best_match1, OF find_best_match1_empty_tag]
        apply_tag_rules_with_empty_input[of find_best_match2, OF find_best_match2_empty_tag]
  by simp


text \<open>
  The claim as stated fails: on the empty input with \<open>delayed_clean\<close> true and an empty
  cache, both implementations save a cache that holds the empty token; and a rule whose
  synonyms string is \<open>", "\<close> makes the empty input return that rule's name.
\<close>

theorem empty_input_counterexample:
  "apply_tag_rules1 (\<lambda>n. 7) [] [] [] True = Inr ([], [([], 7)])
   \<and> apply_tag_rules2 (\<lambda>n. 7) [] [] [] True = Inr ([], [([], 7)])
   \<and> apply_tag_rules1 (\<lambda>n. 7) [] []
        [\<lparr>allowed_name = ''x'', synonyms = Some '', '', immutable = False, separated = False\<rparr>] False
      = Inr (''x'', [])"
  by code_simp


text \<open>
  C3 (normalization invariance), as amended. Two raw tokens whose trimmed forms have the
  same normal form contribute the same names to \<open>result_tags\<close>, in both
  implementations, when that normal form is a key of the synonym index or when the
  composite splitter, which reads the upper-case letters of the raw token, returns the
  same names for both.
\<close>

theorem same_normal_form_same_outcome:
  assumes "normalize_tag (py_strip raw1) = normalize_tag (py_strip raw2)"
    and "map_of (build_allowed_tags_with_synonyms rules) (normalize_tag (py_strip raw1)) \<noteq> None
         \<or> split_composite_tag (py_strip raw1) (build_allowed_tags_with_synonyms rules)
            = split_composite_tag (py_strip raw2) (build_allowed_tags_with_synonyms rules)"
  shows "map_sum id result_tags
           (process_tag find_best_match1 clock (build_allowed_tags_with_synonyms rules) delayed_clean raw1 st)
         = map_sum id result_tags
           (process_tag find_best_match1 clock (build_allowed_tags_with_synonyms rules) delayed_clean raw2 st)
       \<and> map_sum id result_tags
           (process_tag find_best_match2 clock (build_allowed_tags_with_synonyms rules) delayed_clean raw1 st)
         = map_sum id result_tags
           (process_tag find_best_match2 clock (build_allowed_tags_with_synonyms rules) delayed_clean raw2 st)"
proof -
  let ?aws = "build_allowed_tags_with_synonyms rules"
  have "resolve find_best_match1 ?aws (py_strip raw1) = resolve find_best_match1 ?aws (py_strip raw2)"
    using assms find_best_match1_normalized[OF assms(1), of ?aws]
    by (intro resolve_normalized) auto
  moreover
  have "resolve find_best_match2 ?aws (py_strip raw1) = resolve find_best_match2 ?aws (py_strip raw2)"
    using assms find_best_match2_normalized[OF assms(1), of ?aws]
    by (intro resolve_normalized) auto
  ultimately show ?thesis by (simp add: process_tag_result_tags)
qed


text \<open>
  The claim as stated fails: \<open>DisplaySvc\<close> and \<open>displaysvc\<close> have the same normal form,
  the first is split into two names and the second is matched to one.
\<close>

theorem same_normal_form_counterexample:
  "normalize_tag ''DisplaySvc'' = normalize_tag ''displaysvc''
   \<and> apply_tag_rules1 (\<lambda>n. 7) [] ''DisplaySvc'' display_svc False = Inr (''display; svc'', [])
   \<and> apply_tag_rules1 (\<lambda>n. 7) [] ''displaysvc'' display_svc False = Inr (''display'', [])"
  by code_simp


theorem same_normal_form_same_outcome_witness:
  "normalize_tag (py_strip ''Display'') = normalize_tag (py_strip '' display'')
   \<and> map_sum id result_tags
        (process_tag find_best_match1 (\<lambda>n. 7) (build_allowed_tags_with_synonyms display_svc) True
           ''Display'' \<lparr>result_tags = [], invalid_tags_cache = [], now_calls = 1\<rparr>)
      = map_sum id result_tags
        (process_tag find_best_match1 (\<lambda>n. 7) (build_allowed_tags_with_synonyms display_svc) True
           '' display'' \<lparr>result_tags = [], invalid_tags_cache = [], now_calls = 1\<rparr>)"
proof -
  have h1: "normalize_tag (py_strip ''Display'') = normalize_tag (py_strip '' display'')"
    by code_simp
  have h2: "map_of (build_allowed_tags_with_synonyms display_svc) (normalize_tag (py_strip ''Display'')) \<noteq> None
         \<or> split_composite_tag (py_strip ''Display'') (build_allowed_tags_with_synonyms display_svc)
            = split_composite_tag (py_strip '' display'') (build_allowed_tags_with_synonyms display_svc)"
    by code_simp
  show ?thesis
    using h1 same_normal_form_same_outcome[OF h1 h2] by blast
qed


text \<open>
  C8 (idempotence), as amended. When every trimmed token is the name that the synonym
  index stores under the token's normal form (the token is an \<open>allowed_name\<close> whose key
  no later name or synonym has overwritten), both implementations return the trimmed
  tokens in the order of their first occurrence, joined with \<open>"; "\<close>.
\<close>

theorem canonical_list_is_returned:
  assumes "\<forall>raw \<in> set (py_split '';'' tags).
             map_of (build_allowed_tags_with_synonyms rules) (normalize_tag (py_strip raw))
               = Some (py_strip raw)"
  shows "map_sum id fst (apply_tag_rules1 clock loaded tags rules delayed_clean)
           = Inr (py_join ''; '' (fromkeys (map py_strip (py_split '';'' tags))))
       \<and> map_sum id fst (apply_tag_rules2 clock loaded tags rules delayed_clean)
           = Inr (py_join ''; '' (fromkeys (map py_strip (py_split '';'' tags))))"
  unfolding apply_tag_rules1_def apply_tag_rules2_def apply_tag_rules_with_output
  by (simp add: collect_exact[OF assms])


text \<open>
  The claim as stated fails: the token \<open>a\<close> is the name of the first rule, the second
  rule has the synonym \<open>a\<close>, and the output is \<open>b\<close>.
\<close>

theorem canonical_list_counterexample:
  "allowed_name (hd shadowed) = ''a''
   \<and> apply_tag_rules1 (\<lambda>n. 7) [] ''a'' shadowed False = Inr (''b'', [])
   \<and> apply_tag_rules2 (\<lambda>n. 7) [] ''a'' shadowed False = Inr (''b'', [])"
  by code_simp


theorem canonical_list_is_returned_witness:
  "map_sum id fst (apply_tag_rules1 (\<lambda>n. 7) [] ''svc; display;svc'' display_svc True)
     = Inr ''svc; display''
   \<and> map_sum id fst (apply_tag_rules2 (\<lambda>n. 7) [] ''svc; display;svc'' display_svc True)
     = Inr ''svc; display''"
proof -
  have h: "\<forall>raw \<in> set (py_split '';'' ''svc; display;svc'').
      map_of (build_allowed_tags_with_synonyms display_svc) (normalize_tag (py_strip raw))
        = Some (py_strip raw)"
    by code_simp
  have e: "py_join ''; '' (fromkeys (map py_strip (py_split '';'' ''svc; display;svc''))) = ''svc; display''"
    by code_simp
  show ?thesis
    using canonical_list_is_returned[OF h, of "\<lambda>n. 7" "[]" True] unfolding e by blast
qed


text \<open>
  C9 (the two implementations are interchangeable), as amended. When the two
  \<open>find_best_match\<close> functions return the same answer for every trimmed token of the
  input that is neither an exact match nor split, the two implementations return the
  same string and save the same cache; in particular when every token is an exact match
  or is split.
\<close>

theorem implementations_agree_when_matchers_agree:
  assumes "\<forall>raw \<in> set (py_split '';'' tags).
             map_of (build_allowed_tags_with_synonyms rules) (normalize_tag (py_strip raw)) = None
             \<and> split_composite_tag (py_strip raw) (build_allowed_tags_with_synonyms rules) = []
             \<longrightarrow> find_best_match1 (py_strip raw) (build_allowed_tags_with_synonyms rules)
                 = find_best_match2 (py_strip raw) (build_allowed_tags_with_synonyms rules)"
  shows "apply_tag_rules1 clock loaded tags rules delayed_clean
         = apply_tag_rules2 clock loaded tags rules delayed_clean"
proof -
  have "\<forall>raw \<in> set (py_split '';'' tags).
          resolve find_best_match1 (build_allowed_tags_with_synonyms rules) (py_strip raw)
          = resolve find_best_match2 (build_allowed_tags_with_synonyms rules) (py_strip raw)"
    using assms resolve_cong by blast
  then have "process_tags find_best_match1 clock (build_allowed_tags_with_synonyms rules) delayed_clean
            (py_split '';'' tags)
            \<lparr>result_tags = [], invalid_tags_cache = clean_cache (clock 0) loaded, now_calls = 1\<rparr>
        = process_tags find_best_match2 clock (build_allowed_tags_with_synonyms rules) delayed_clean
            (py_split '';'' tags)
            \<lparr>result_tags = [], invalid_tags_cache = clean_cache (clock 0) loaded, now_calls = 1\<rparr>"
    by (rule process_tags_cong)
  then show ?thesis
    by (simp add: apply_tag_rules1_def apply_tag_rules2_def apply_tag_rules_with_def run_loop_def)
qed


text \<open>
  The claim as stated fails: for the token \<open>abc\<close> and the single name \<open>abcdefg\<close> the
  character-overlap score is 3/7 and the first implementation returns the empty string,
  the sequence-matcher ratio is 0.6, which passes its inclusive cutoff, and the second
  returns \<open>abcdefg\<close>.
\<close>

theorem implementations_differ_counterexample:
  "apply_tag_rules1 (\<lambda>n. 7) [] ''abc'' long_name True = Inr ([], [(''abc'', 7)])
   \<and> apply_tag_rules2 (\<lambda>n. 7) [] ''abc'' long_name True = Inr (''abcdefg'', [])"
  by code_simp


theorem implementations_agree_witness:
  "apply_tag_rules1 (\<lambda>n. 7) [] ''DisplaySvc; zzz'' display_svc True
     = apply_tag_rules2 (\<lambda>n. 7) [] ''DisplaySvc; zzz'' display_svc True"
proof -
  have h: "\<forall>raw \<in> set (py_split '';'' ''DisplaySvc; zzz'').
             map_of (build_allowed_tags_with_synonyms display_svc) (normalize_tag (py_strip raw)) = None
             \<and> split_composite_tag (py_strip raw) (build_allowed_tags_with_synonyms display_svc) = []
             \<longrightarrow> find_best_match1 (py_strip raw) (build_allowed_tags_with_synonyms display_svc)
                 = find_best_match2 (py_strip raw) (build_allowed_tags_with_synonyms display_svc)"
    by code_simp
  show ?thesis
    using implementations_agree_when_matchers_agree[OF h, of "\<lambda>n. 7" "[]" True] by blast
qed


text \<open>
  C1 (cached tokens are not matched again and keep their first timestamp), as amended.
  The cache is not read while a token is resolved (C10), so a token that is a key of the
  loaded cache goes through exact lookup, composite splitting and fuzzy matching like
  any other. With \<open>delayed_clean\<close> true, every trimmed token of the input that fails
  all three is, in the saved cache, stored with a reading of the clock taken during
  this call after cleaning: its entry is overwritten with the time of the latest
  rejection, whatever the loaded cache held for it.
\<close>

theorem failed_token_is_cached_with_current_time:
  assumes "raw \<in> set (py_split '';'' tags)"
    and "map_of (build_allowed_tags_with_synonyms rules) (normalize_tag (py_strip raw)) = None"
    and "split_composite_tag (py_strip raw) (build_allowed_tags_with_synonyms rules) = []"
  shows "(no_match (find_best_match1 (py_strip raw) (build_allowed_tags_with_synonyms rules)) \<longrightarrow>
           (\<exists>out saved n. apply_tag_rules1 clock loaded tags rules True = Inr (out, saved)
              \<and> 1 \<le> n \<and> map_of saved (py_strip raw) = Some (clock n)))
       \<and> (no_match (find_best_match2 (py_strip raw) (build_allowed_tags_with_synonyms rules)) \<longrightarrow>
           (\<exists>out saved n. apply_tag_rules2 clock loaded tags rules True = Inr (out, saved)
              \<and> 1 \<le> n \<and> map_of saved (py_strip raw) = Some (clock n)))"
  unfolding apply_tag_rules1_def apply_tag_rules2_def
  using failed_token_saved[of find_best_match1 rules raw tags clock loaded]
        failed_token_saved[of find_best_match2 rules raw tags clock loaded]
        find_best_match1_value find_best_match2_value resolve1_returns resolve2_returns
        resolve_fails[OF assms(2,3)] assms(1)
  by blast


text \<open>
  The claim as stated fails: \<open>zzz\<close> is cached with timestamp 3 and fails again; both
  implementations save it with the current time 101. And the cached token \<open>displai\<close>
  is matched by the fuzzy step and resolves to \<open>display\<close>.
\<close>

theorem cached_token_counterexample:
  "apply_tag_rules1 (\<lambda>n. 100 + int n) stale_cache ''zzz'' display_svc True
     = Inr ([], [(''zzz'', 101), (''displai'', 4)])
   \<and> apply_tag_rules2 (\<lambda>n. 100 + int n) stale_cache ''zzz'' display_svc True
     = Inr ([], [(''zzz'', 101), (''displai'', 4)])
   \<and> apply_tag_rules1 (\<lambda>n. 100 + int n) stale_cache ''displai'' display_svc True
     = Inr (''display'', [(''zzz'', 3), (''displai'', 4)])"
  by code_simp


theorem failed_token_is_cached_witness:
  "\<exists>out saved n. apply_tag_rules1 (\<lambda>n. 100 + int n) stale_cache ''zzz'' display_svc True
       = Inr (out, saved)
     \<and> 1 \<le> n \<and> map_of saved (py_strip ''zzz'') = Some ((\<lambda>n. 100 + int n) n)"
proof -
  have h1: "''zzz'' \<in> set (py_split '';'' ''zzz'')" by code_simp
  have h2: "map_of (build_allowed_tags_with_synonyms display_svc) (normalize_tag (py_strip ''zzz'')) = None"
    by code_simp
  have h3: "split_composite_tag (py_strip ''zzz'') (build_allowed_tags_with_synonyms display_svc) = []"
    by code_simp
  have h4: "no_match (find_best_match1 (py_strip ''zzz'') (build_allowed_tags_with_synonyms display_svc))"
    by code_simp
  show ?thesis
    using failed_token_is_cached_with_current_time[OF h1 h2 h3, of "\<lambda>n. 100 + int n" stale_cache] h4
    by blast
qed


text \<open>
  C4 (threshold and tie-breaking), as amended. Whenever the first \<open>find_best_match\<close>
  returns, it returns the name of the first key with the highest score, that score
  being strictly greater than 0.6, and nothing when no key scores above 0.6. The
  second \<open>find_best_match\<close> always returns; a key is a candidate when its three ratio
  tests pass with \<open>\<ge> 0.6\<close>, and the name returned is that of the candidate with the
  highest ratio, the greatest key in string order among equal ratios.
\<close>

theorem fuzzy_match_selection:
  "(find_best_match1 tag aws = Inr r \<longrightarrow>
      (case r of
         Some name \<Rightarrow>
           \<exists>k. first_strictly_best (normalize_tag tag) (map fst aws) k \<and> map_of aws k = Some name
       | None \<Rightarrow>
           \<forall>k \<in> set (map fst aws).
             \<exists>s. is_tokens_fuzzy_equal (normalize_tag tag) k = Inr s \<and> s \<le> 3 / 5))
   \<and> (\<exists>r'. find_best_match2 tag aws = Inr r' \<and>
        (case r' of
           Some name \<Rightarrow>
             \<exists>k. greatest_candidate (normalize_tag tag) (map fst aws) k \<and> map_of aws k = Some name
         | None \<Rightarrow> \<forall>k \<in> set (map fst aws). \<not> close_enough k (normalize_tag tag)))"
  using find_best_match1_selection[of tag aws r] find_best_match2_selection[of tag aws] by blast


text \<open>
  The claim as stated fails for the second implementation: the key \<open>abcdefg\<close> has ratio
  exactly 0.6 with the word \<open>abc\<close> and is returned; and of the two keys \<open>abx\<close>, \<open>aby\<close>
  with equal ratios the second one in iteration order is returned.
\<close>

theorem fuzzy_match_counterexample:
  "ratio ''abcdefg'' (normalize_tag ''abc'') = 3 / 5
   \<and> find_best_match2 ''abc'' [(''abcdefg'', ''abcdefg'')] = Inr (Some ''abcdefg'')
   \<and> ratio ''abx'' (normalize_tag ''abc'') = ratio ''aby'' (normalize_tag ''abc'')
   \<and> map fst ties = [''abx'', ''aby'']
   \<and> find_best_match2 ''abc'' ties = Inr (Some ''aby'')"
  by code_simp


theorem fuzzy_match_selection_witness:
  "(\<exists>k. first_strictly_best (normalize_tag ''displai'')
           (map fst (build_allowed_tags_with_synonyms display_svc)) k
        \<and> map_of (build_allowed_tags_with_synonyms display_svc) k = Some ''display'')
   \<and> (\<exists>r'. find_best_match2 ''displai'' (build_allowed_tags_with_synonyms display_svc) = Inr r' \<and>
        (case r' of
           Some name \<Rightarrow>
             \<exists>k. greatest_candidate (normalize_tag ''displai'')
                    (map fst (build_allowed_tags_with_synonyms display_svc)) k
                \<and> map_of (build_allowed_tags_with_synonyms display_svc) k = Some name
         | None \<Rightarrow> \<forall>k \<in> set (map fst (build_allowed_tags_with_synonyms display_svc)).
                      \<not> close_enough k (normalize_tag ''displai'')))"
proof -
  have h: "find_best_match1 ''displai'' (build_allowed_tags_with_synonyms display_svc)
             = Inr (Some ''display'')"
    by code_simp
  show ?thesis
    using fuzzy_match_selection[of "''displai''" "build_allowed_tags_with_synonyms display_svc"
            "Some ''display''"] h
    by simp
qed


end
